theory Spec2Isabelle
  imports Main "HOL-Library.Multiset"
begin

section \<open>Data model\<close>

subsection \<open>Syntax tree nodes\<close>

text \<open>
  A node of the markdown syntax tree (mdast, with the extension nodes of the plugin).
  Every property that the parser code reads is a field; a property that a node does not
  carry is \<open>None\<close> (JavaScript's \<open>undefined\<close>). Offsets are those of
  \<open>position.start.offset\<close> and \<open>position.end.offset\<close>.
\<close>

datatype node = Node
  (ntype: string)
  (nchildren: "node list")
  (startOffset: int)
  (endOffset: int)
  (nvalue: "string option")
  (nalt: "string option")
  (ndepth: "int option")
  (nchecked: "bool option")
  (ncheckChar: "string option")
  (ndate: "string option")
  (ntime: "string option")
  (nfileAccessor: "string option")
  (nfileMetadata: "(string \<times> string) list option")
  (nfileMetadataOrder: "string list option")

lemma size_nchildren [termination_simp]: "x \<in> set (nchildren n) \<Longrightarrow> size x < size n"
proof (cases n)
  case (Node ty cs)
  assume "x \<in> set (nchildren n)"
  with Node have "x \<in> set cs" by simp
  then have "size x \<le> size_list size cs" by (rule size_list_estimation') simp
  with Node show ?thesis by simp
qed

subsection \<open>Items, lanes, boards (src/components/types)\<close>

record inlineField =
  fkey :: string
  fvalue :: string
  fstart :: int
  fend :: int

record itemMetadata =
  dateStr :: "string option"
  date :: "string option"
  timeStr :: "string option"
  time :: "string option"
  tags :: "string list option"
  fileAccessor :: "string option"
  fileRef :: "string option"
  fileMetadata :: "(string \<times> string) list option"
  fileMetadataOrder :: "string list option"
  inlineMetadata :: "inlineField list option"

record itemData =
  blockId :: "string option"
  checked :: "bool option"
  checkChar :: string
  title :: string
  titleRaw :: string
  titleSearch :: string
  titleSearchRaw :: string
  metadata :: itemMetadata
  forceEditMode :: "bool option"

text \<open>\<open>Item = Nestable<ItemData>\<close>: the template fields (\<open>type\<close>, \<open>accepts\<close>, the empty
  \<open>children\<close>) are constant and are the constructor tag of \<open>child\<close> below.\<close>

record item =
  itemId :: string
  itemData :: itemData

text \<open>A child of a lane is a lane or an item; \<open>isItem\<close> and \<open>isLane\<close> read the
  \<open>type\<close> field, here the constructor.\<close>

datatype 'l child = ItemChild item | LaneChild 'l

record laneData =
  shouldMarkItemsComplete :: "bool option"
  laneTitle :: string
  maxItems :: "int option"
  forceEditModeLane :: "bool option"
  sorted :: "string option"
  level :: "int option"
  isCollapsed :: "bool option"
  parentId :: "string option"

datatype lane = Lane (laneId: string) (laneData: laneData) (laneChildren: "lane child list")

record errorReport =
  description :: string
  stackTrace :: string

record boardData =
  isSearching :: bool
  settings :: "(string \<times> string) list"
  frontmatter :: "(string \<times> string) list"
  archive :: "item list"
  errors :: "errorReport list"

record board =
  boardId :: string
  boardChildren :: "lane list"
  boardData :: boardData

fun isLane :: "'l child \<Rightarrow> bool" where
  "isLane (LaneChild l) = True"
| "isLane (ItemChild i) = False"

fun isItem :: "'l child \<Rightarrow> bool" where
  "isItem (ItemChild i) = True"
| "isItem (LaneChild l) = False"

text \<open>\<open>getLaneLevel\<close>: \<open>lane.data.level || 1\<close>; an absent level and the level 0 read as 1.\<close>

definition orOne :: "int option \<Rightarrow> int" where
  "orOne v = (case v of None \<Rightarrow> 1 | Some n \<Rightarrow> if n = 0 then 1 else n)"

definition getLaneLevel :: "lane \<Rightarrow> int" where
  "getLaneLevel l = orOne (level (laneData l))"

subsection \<open>Errors\<close>

text \<open>A thrown JavaScript exception. \<open>TypeError\<close> is the error of reading a property of
  \<open>undefined\<close>; \<open>Thrown\<close> is an exception of a collaborator.\<close>

datatype error = TypeError string | Thrown string

fun mapE :: "('a \<Rightarrow> error + 'b) \<Rightarrow> 'a list \<Rightarrow> error + 'b list" where
  "mapE f [] = Inr []"
| "mapE f (x # xs) =
     (case f x of
        Inl e \<Rightarrow> Inl e
      | Inr y \<Rightarrow> (case mapE f xs of Inl e \<Rightarrow> Inl e | Inr ys \<Rightarrow> Inr (y # ys)))"

subsection \<open>Collaborators\<close>

text \<open>
  The settings of the state manager and the helpers that the parser code imports from
  modules that are not part of the sources at hand (\<open>../helpers/ast\<close>, \<open>../helpers/parser\<close>,
  \<open>../helpers/inlineMetadata\<close>, \<open>../helpers/hydrateBoard\<close>, \<open>../parseMarkdown\<close>,
  \<open>../common\<close>, \<open>src/helpers\<close>, \<open>src/lang/helpers\<close>, \<open>obsidian\<close>). They are parameters of
  the model: every theorem holds for all of them.
  \<open>hydrateItem\<close> mutates the item it is given and may throw after a partial mutation; it
  returns the item as it stands afterwards, and the exception if there was one.
  \<open>instanceIds n\<close> is the value of the \<open>n\<close>-th call of \<open>generateInstanceId\<close>.
\<close>

record env =
  moveTags :: bool
  moveDates :: bool
  moveTaskMetadata :: bool
  inlineMetadataPosition :: string
  getNodeContentBoundary :: "node \<Rightarrow> int \<times> int"
  replaceBrs :: "string \<Rightarrow> string"
  dedentNewLines :: "string \<Rightarrow> string"
  indentNewLines :: "string \<Rightarrow> string"
  removeBlockId :: "string \<Rightarrow> string"
  addBlockId :: "string \<Rightarrow> item \<Rightarrow> string"
  markRangeForDeletion :: "string \<Rightarrow> int \<times> int \<Rightarrow> string"
  executeDeletion :: "string \<Rightarrow> string"
  preprocessTitle :: "string \<Rightarrow> string"
  extractInlineFields :: "string \<Rightarrow> bool \<Rightarrow> inlineField list"
  taskFieldsHas :: "string \<Rightarrow> bool"
  defaultSort :: "string \<Rightarrow> string \<Rightarrow> int"
  parseLaneTitle :: "string \<Rightarrow> string \<times> int option"
  laneTitleWithMaxItems :: "string \<Rightarrow> int option \<Rightarrow> string"
  replaceNewLines :: "string \<Rightarrow> string"
  parseFragment :: "string \<Rightarrow> error + node"
  hydrateItem :: "item \<Rightarrow> item \<times> error option"
  t :: "string \<Rightarrow> string"
  archiveString :: string
  completeString :: string
  settingsToCodeblock :: "board \<Rightarrow> string"
  stringifyYaml :: "(string \<times> string) list \<Rightarrow> string"
  instanceIds :: "nat \<Rightarrow> string"
  getTaskStatusDone :: string
  filePath :: string

section \<open>JavaScript primitives\<close>

text \<open>\<open>String.prototype.slice(from, to)\<close>: a negative index counts from the end, both
  indices are clamped to the string.\<close>

definition clampIndex :: "nat \<Rightarrow> int \<Rightarrow> nat" where
  "clampIndex n i = (if i < 0 then nat (max (int n + i) 0) else min (nat i) n)"

definition jsSlice :: "string \<Rightarrow> int \<Rightarrow> int \<Rightarrow> string" where
  "jsSlice s from to =
     (let a = clampIndex (length s) from; b = clampIndex (length s) to
      in take (b - a) (drop a s))"

definition jsSliceFrom :: "string \<Rightarrow> int \<Rightarrow> string" where
  "jsSliceFrom s from = drop (clampIndex (length s) from) s"

text \<open>\<open>String.prototype.indexOf\<close> of a character: the first position, or \<open>-1\<close>.\<close>

fun indexOfChar :: "char \<Rightarrow> string \<Rightarrow> int" where
  "indexOfChar c [] = -1"
| "indexOfChar c (x # xs) =
     (if x = c then 0 else (let i = indexOfChar c xs in if i < 0 then -1 else i + 1))"

text \<open>String concatenation with a value that may be \<open>undefined\<close>.\<close>

definition jsStr :: "string option \<Rightarrow> string" where
  "jsStr v = (case v of None \<Rightarrow> ''undefined'' | Some s \<Rightarrow> s)"

text \<open>\<open>a || b\<close> on strings that may be \<open>undefined\<close>: the empty string is falsy.\<close>

definition truthyStr :: "string option \<Rightarrow> bool" where
  "truthyStr v = (case v of None \<Rightarrow> False | Some s \<Rightarrow> s \<noteq> [])"

definition truthyBool :: "bool option \<Rightarrow> bool" where
  "truthyBool v = (case v of None \<Rightarrow> False | Some b \<Rightarrow> b)"

text \<open>\<open>Array.prototype.sort(compare)\<close>. For a comparator that is a consistent comparison
  function in the sense of ECMAScript (\<open>consistentOn\<close> below) the standard fixes the result:
  the elements in ascending order of the comparator, elements that compare equal in their
  original order. \<open>jsSort\<close> computes that result by stable insertion: \<open>x\<close> goes before the
  first element that the comparator does not put before it. For any other comparator the
  order that an engine returns is implementation-defined, and \<open>jsSort\<close> is no model of it.\<close>

fun insertBy :: "('a \<Rightarrow> 'a \<Rightarrow> int) \<Rightarrow> 'a \<Rightarrow> 'a list \<Rightarrow> 'a list" where
  "insertBy cmp x [] = [x]"
| "insertBy cmp x (y # ys) = (if cmp x y \<le> 0 then x # y # ys else y # insertBy cmp x ys)"

definition jsSort :: "('a \<Rightarrow> 'a \<Rightarrow> int) \<Rightarrow> 'a list \<Rightarrow> 'a list" where
  "jsSort cmp xs = foldr (insertBy cmp) xs []"

text \<open>\<open>Array.prototype.join\<close>.\<close>

fun joinWith :: "string \<Rightarrow> string list \<Rightarrow> string" where
  "joinWith sep [] = []"
| "joinWith sep [x] = x"
| "joinWith sep (x # y # ys) = x @ sep @ joinWith sep (y # ys)"

text \<open>\<open>visit\<close> (unist-util-visit) with visitors that never skip or exit: every node of
  the tree in preorder, with its parent; the root has none.\<close>

fun preorder :: "node option \<Rightarrow> node \<Rightarrow> (node \<times> node option) list" where
  "preorder parent n = (n, parent) # concat (map (preorder (Some n)) (nchildren n))"

text \<open>\<open>toString\<close> (mdast-util-to-string): the value of a node that has one, else its
  alternative text when that is asked for and not empty, else the text of its children.\<close>

fun toString :: "bool \<Rightarrow> node \<Rightarrow> string" where
  "toString includeImageAlt n =
     (case nvalue n of
        Some v \<Rightarrow> v
      | None \<Rightarrow>
          if includeImageAlt \<and> truthyStr (nalt n) then jsStr (nalt n)
          else concat (map (toString includeImageAlt) (nchildren n)))"

section \<open>listItemToItemData\<close>

text \<open>The content boundary of the item: the first and the last child decide it. With no
  child, \<open>startNode\<close> is \<open>undefined\<close> and reading \<open>startNode.type\<close> throws.\<close>

definition itemBoundary :: "env \<Rightarrow> node \<Rightarrow> error + (int \<times> int)" where
  "itemBoundary e li =
     (case nchildren li of
        [] \<Rightarrow> Inl (TypeError ''startNode is undefined'')
      | startNode # _ \<Rightarrow>
          (let endNode = last (nchildren li);
               start = (if ntype startNode = ''paragraph''
                        then fst (getNodeContentBoundary e startNode)
                        else startOffset startNode);
               end = (if ntype endNode = ''paragraph''
                      then snd (getNodeContentBoundary e endNode)
                      else endOffset endNode)
           in Inr (start, end)))"

text \<open>Modelled from the spec: \<open>getStringFromBoundary\<close> of \<open>../helpers/ast\<close>, which is not
  among the sources: the text of the source between the two offsets of the boundary.\<close>

definition getStringFromBoundary :: "string \<Rightarrow> int \<times> int \<Rightarrow> string" where
  "getStringFromBoundary md b = jsSlice md (fst b) (snd b)"

definition itemContentOf :: "string \<Rightarrow> node \<Rightarrow> int \<times> int \<Rightarrow> string" where
  "itemContentOf md li b =
     (let itemContent = getStringFromBoundary md b
      in if itemContent =
            ''['' @ (if truthyBool (nchecked li) then jsStr (ncheckChar li) else '' '') @ '']''
         then [] else itemContent)"

text \<open>\<open>parent.children.first()?.value?.startsWith('```')\<close>. The root of the traversal is
  the list item, which is of neither type that asks for its parent.\<close>

definition inFence :: "node option \<Rightarrow> bool" where
  "inFence parent =
     (case parent of
        None \<Rightarrow> False
      | Some p \<Rightarrow>
          (case nchildren p of
             [] \<Rightarrow> False
           | c # _ \<Rightarrow> (case nvalue c of None \<Rightarrow> False | Some v \<Rightarrow> take 3 v = ''```'')))"

definition searchTypes :: "string list" where
  "searchTypes =
     [''text'', ''wikilink'', ''embedWikilink'', ''image'', ''inlineCode'', ''code'', ''hashtag'']"

definition searchVisitor :: "node \<times> node option \<Rightarrow> string \<Rightarrow> string" where
  "searchVisitor np acc =
     (let n = fst np; parent = snd np in
      if ntype n = ''hashtag''
      then (if \<not> inFence parent then acc @ '' #'' @ jsStr (nvalue n) else acc)
      else acc @ (if truthyStr (nvalue n) then jsStr (nvalue n)
                  else if truthyStr (nalt n) then jsStr (nalt n) else []))"

definition titleSearchOf :: "node \<Rightarrow> string" where
  "titleSearchOf li =
     fold searchVisitor (filter (\<lambda>np. ntype (fst np) \<in> set searchTypes) (preorder None li)) []"

definition initialItemData :: "env \<Rightarrow> node \<Rightarrow> string \<Rightarrow> itemData" where
  "initialItemData e li itemContent =
     \<lparr> blockId = None,
       checked = nchecked li,
       checkChar = (if truthyBool (nchecked li)
                    then (if truthyStr (ncheckChar li) then jsStr (ncheckChar li) else '' '')
                    else '' ''),
       title = [],
       titleRaw = removeBlockId e (dedentNewLines e (replaceBrs e itemContent)),
       titleSearch = titleSearchOf li,
       titleSearchRaw = titleSearchOf li,
       metadata = \<lparr> dateStr = None, date = None, timeStr = None, time = None, tags = Some [],
                    fileAccessor = None, fileRef = None, fileMetadata = None,
                    fileMetadataOrder = None, inlineMetadata = None \<rparr>,
       forceEditMode = None \<rparr>"

definition markNode :: "env \<Rightarrow> int \<Rightarrow> node \<Rightarrow> string \<Rightarrow> string" where
  "markNode e boundaryStart n ttl =
     markRangeForDeletion e ttl (startOffset n - boundaryStart, endOffset n - boundaryStart)"

definition pushTag :: "string \<Rightarrow> string list option \<Rightarrow> string list option" where
  "pushTag tg ts = (case ts of None \<Rightarrow> Some [tg] | Some xs \<Rightarrow> Some (xs @ [tg]))"

text \<open>The visitor of the second traversal; its state is the item data and the title with
  its deletion marks.\<close>

definition metaVisitor ::
  "env \<Rightarrow> int \<Rightarrow> node \<times> node option \<Rightarrow> itemData \<times> string \<Rightarrow> itemData \<times> string" where
  "metaVisitor e boundaryStart np st =
     (let n = fst np; parent = snd np; d = fst st; ttl = snd st; m = metadata d in
      if ntype n = ''blockid'' then (d\<lparr>blockId := nvalue n\<rparr>, ttl)
      else if ntype n = ''hashtag'' \<and> \<not> inFence parent then
        (d\<lparr>metadata := m\<lparr>tags := pushTag (''#'' @ jsStr (nvalue n)) (tags m)\<rparr>\<rparr>,
         if moveTags e then markNode e boundaryStart n ttl else ttl)
      else if ntype n = ''date'' \<or> ntype n = ''dateLink'' then
        (d\<lparr>metadata := m\<lparr>dateStr := ndate n\<rparr>\<rparr>,
         if moveDates e then markNode e boundaryStart n ttl else ttl)
      else if ntype n = ''time'' then
        (d\<lparr>metadata := m\<lparr>timeStr := ntime n\<rparr>\<rparr>,
         if moveDates e then markNode e boundaryStart n ttl else ttl)
      else if ntype n = ''embedWikilink'' then
        (d\<lparr>metadata := m\<lparr>fileAccessor := nfileAccessor n\<rparr>\<rparr>, ttl)
      else if ntype n = ''wikilink'' then
        (d\<lparr>metadata := m\<lparr>fileAccessor := nfileAccessor n, fileMetadata := nfileMetadata n,
                          fileMetadataOrder := nfileMetadataOrder n\<rparr>\<rparr>, ttl)
      else if ntype n = ''link'' \<and> nfileAccessor n \<noteq> None then
        (d\<lparr>metadata := m\<lparr>fileAccessor := nfileAccessor n, fileMetadata := nfileMetadata n,
                          fileMetadataOrder := nfileMetadataOrder n\<rparr>\<rparr>, ttl)
      else if ntype n = ''embedLink'' then
        (d\<lparr>metadata := m\<lparr>fileAccessor := nfileAccessor n\<rparr>\<rparr>, ttl)
      else (d, ttl))"

definition visitMeta :: "env \<Rightarrow> int \<Rightarrow> node \<Rightarrow> itemData \<times> string \<Rightarrow> itemData \<times> string" where
  "visitMeta e boundaryStart li st =
     fold (metaVisitor e boundaryStart)
       (filter (\<lambda>np. ntype (fst np) \<noteq> ''paragraph'') (preorder None li)) st"

text \<open>The callback of \<open>inlineFields.reduce\<close>.\<close>

definition keepField :: "env \<Rightarrow> int \<Rightarrow> inlineField list \<Rightarrow> inlineField \<Rightarrow> inlineField list" where
  "keepField e firstLineEnd acc cur =
     (if \<not> taskFieldsHas e (fkey cur) then acc @ [cur]
      else if firstLineEnd \<le> 0 \<or> fend cur < firstLineEnd then acc @ [cur]
      else acc)"

text \<open>The body of the loop that cuts the moved fields out of the title.\<close>

definition exciseField :: "env \<Rightarrow> bool \<Rightarrow> bool \<Rightarrow> inlineField \<Rightarrow> string \<Rightarrow> string" where
  "exciseField e moveTaskData moveMetadata f ttl =
     (let isTask = taskFieldsHas e (fkey f) in
      if isTask \<and> \<not> moveTaskData then ttl
      else if \<not> isTask \<and> \<not> moveMetadata then ttl
      else jsSlice ttl 0 (fstart f) @ jsSliceFrom ttl (fend f))"

definition withInlineFields :: "env \<Rightarrow> itemData \<Rightarrow> itemData" where
  "withInlineFields e d =
     (let firstLineEnd = indexOfChar (CHR 0x0A) (title d);
          inlineFields = extractInlineFields e (title d) True
      in if inlineFields = [] then d
         else
           (let kept = foldl (keepField e firstLineEnd) [] inlineFields;
                d1 = d\<lparr>metadata := (metadata d)\<lparr>inlineMetadata := Some kept\<rparr>\<rparr>;
                moveTaskData = moveTaskMetadata e;
                moveMetadata = (inlineMetadataPosition e \<noteq> ''body'')
            in if moveTaskData \<or> moveMetadata
               then d1\<lparr>title := fold (exciseField e moveTaskData moveMetadata) (rev kept) (title d1)\<rparr>
               else d1))"

definition sortTags :: "env \<Rightarrow> itemData \<Rightarrow> itemData" where
  "sortTags e d =
     d\<lparr>metadata := (metadata d)\<lparr>tags := map_option (jsSort (defaultSort e)) (tags (metadata d))\<rparr>\<rparr>"

text \<open>The item data after the two traversals, with the title cleaned of its marked
  ranges and preprocessed; \<open>b\<close> is the content boundary of the item.\<close>

definition visitedItemData :: "env \<Rightarrow> string \<Rightarrow> node \<Rightarrow> int \<times> int \<Rightarrow> itemData" where
  "visitedItemData e md li b =
     (let itemContent = itemContentOf md li b;
          visited = visitMeta e (fst b) li (initialItemData e li itemContent, itemContent)
      in (fst visited)
           \<lparr>title := preprocessTitle e (dedentNewLines e (executeDeletion e (snd visited)))\<rparr>)"

definition listItemToItemData :: "env \<Rightarrow> string \<Rightarrow> node \<Rightarrow> error + itemData" where
  "listItemToItemData e md li =
     (case itemBoundary e li of
        Inl err \<Rightarrow> Inl err
      | Inr b \<Rightarrow> Inr (sortTags e (withInlineFields e (visitedItemData e md li b))))"

section \<open>astToUnhydratedBoard\<close>

definition jsStartsWith :: "string \<Rightarrow> string \<Rightarrow> bool" where
  "jsStartsWith s p = (take (length p) s = p)"

text \<open>Modelled from the spec: \<open>getPrevSibling\<close> and \<open>getNextOfType\<close> of \<open>../helpers/ast\<close>,
  which is not among the sources. \<open>getPrevSibling\<close> is the block directly before the index,
  if there is one. \<open>getNextOfType\<close> scans the siblings after the index and returns the first
  node of the type; it returns none as soon as the callback answers false on a node passed
  on the way. The callback of the parser assigns a local variable, which is the state
  \<open>'s\<close> here.\<close>

definition getPrevSibling :: "node list \<Rightarrow> nat \<Rightarrow> node option" where
  "getPrevSibling children currentIndex =
     (if currentIndex = 0 \<or> currentIndex > length children then None
      else Some (children ! (currentIndex - 1)))"

fun scanForType :: "node list \<Rightarrow> string \<Rightarrow> (node \<Rightarrow> 's \<Rightarrow> bool \<times> 's) \<Rightarrow> 's \<Rightarrow> node option \<times> 's" where
  "scanForType [] ty shouldContinue s = (None, s)"
| "scanForType (c # cs) ty shouldContinue s =
     (if ntype c = ty then (Some c, s)
      else (let r = shouldContinue c s
            in if fst r then scanForType cs ty shouldContinue (snd r) else (None, snd r)))"

definition getNextOfType ::
  "node list \<Rightarrow> nat \<Rightarrow> string \<Rightarrow> (node \<Rightarrow> 's \<Rightarrow> bool \<times> 's) \<Rightarrow> 's \<Rightarrow> node option \<times> 's" where
  "getNextOfType children currentIndex ty shouldContinue s =
     scanForType (drop (Suc currentIndex) children) ty shouldContinue s"

definition isArchiveLane :: "env \<Rightarrow> node \<Rightarrow> node list \<Rightarrow> nat \<Rightarrow> bool" where
  "isArchiveLane e child children currentIndex =
     (if ntype child \<noteq> ''heading'' \<or> toString False child \<noteq> t e ''Archive'' then False
      else (case getPrevSibling children currentIndex of
              None \<Rightarrow> False
            | Some prev \<Rightarrow> ntype prev = ''thematicBreak''))"

text \<open>The callback given to \<open>getNextOfType\<close>; the state is \<open>shouldMarkItemsComplete\<close>.\<close>

definition listScanCallback :: "env \<Rightarrow> node \<Rightarrow> bool \<Rightarrow> bool \<times> bool" where
  "listScanCallback e child mark =
     (if ntype child = ''heading'' then (False, mark)
      else if ntype child = ''paragraph'' then
        (let childStr = toString True child in
         if jsStartsWith childStr ''%% kanban:settings'' then (False, mark)
         else if childStr = t e ''Complete'' then (True, True)
         else (True, mark))
      else (True, mark))"

text \<open>The items of a list node; the \<open>k\<close>-th item takes the \<open>(n + k)\<close>-th instance id.\<close>

definition itemsOfList :: "env \<Rightarrow> string \<Rightarrow> nat \<Rightarrow> node \<Rightarrow> error + item list" where
  "itemsOfList e md n lst =
     mapE (\<lambda>kl. case listItemToItemData e md (snd kl) of
                  Inl err \<Rightarrow> Inl err
                | Inr d \<Rightarrow> Inr \<lparr> itemId = instanceIds e (fst kl), itemData = d \<rparr>)
          (enumerate n (nchildren lst))"

text \<open>
  The parser builds the lanes as objects that it mutates after they are linked into the
  tree: a nested lane is pushed onto the children of the lane on top of the stack, which
  is already a child of another lane or an element of \<open>lanes\<close>. The model keeps the lane
  objects in a store; the address of an object is its index, a lane child is the address of
  the lane. The top of \<open>laneStack\<close> is the head of the list.
\<close>

record laneObj =
  objId :: string
  objData :: laneData
  objChildren :: "nat child list"

record parseState =
  heap :: "laneObj list"
  lanes :: "nat list"
  archiveItems :: "item list"
  laneStack :: "(nat \<times> int) list"
  idCount :: nat

definition newLaneData :: "env \<Rightarrow> string \<Rightarrow> bool \<Rightarrow> int \<Rightarrow> laneData" where
  "newLaneData e ttl mark lvl =
     \<lparr> shouldMarkItemsComplete = Some mark,
       laneTitle = fst (parseLaneTitle e ttl),
       maxItems = snd (parseLaneTitle e ttl),
       forceEditModeLane = None,
       sorted = None,
       level = Some lvl,
       isCollapsed = Some False,
       parentId = None \<rparr>"

text \<open>The loop that pops the lanes at the same or a deeper level.\<close>

fun popLanes :: "int \<Rightarrow> (nat \<times> int) list \<Rightarrow> (nat \<times> int) list" where
  "popLanes lvl [] = []"
| "popLanes lvl (entry # rest) = (if snd entry \<ge> lvl then popLanes lvl rest else entry # rest)"

definition pushChild :: "nat child \<Rightarrow> laneObj \<Rightarrow> laneObj" where
  "pushChild c obj = obj\<lparr>objChildren := objChildren obj @ [c]\<rparr>"

text \<open>Linking a new lane object into the hierarchy and pushing it onto the stack.\<close>

definition placeLane :: "laneObj \<Rightarrow> int \<Rightarrow> parseState \<Rightarrow> parseState" where
  "placeLane obj lvl st =
     (let addr = length (heap st);
          stack = popLanes lvl (laneStack st)
      in case stack of
           [] \<Rightarrow>
             st\<lparr>heap := heap st @ [obj], lanes := lanes st @ [addr], laneStack := [(addr, lvl)]\<rparr>
         | parentEntry # _ \<Rightarrow>
             (let p = fst parentEntry;
                  parent = heap st ! p;
                  obj' = obj\<lparr>objData := (objData obj)\<lparr>parentId := Some (objId parent)\<rparr>\<rparr>
              in st\<lparr>heap := (heap st)[p := pushChild (LaneChild addr) parent] @ [obj'],
                    laneStack := (addr, lvl) # stack\<rparr>))"

text \<open>The body of \<open>root.children.forEach\<close> for a heading.\<close>

definition processHeading :: "env \<Rightarrow> string \<Rightarrow> node list \<Rightarrow> nat \<Rightarrow> node \<Rightarrow> parseState \<Rightarrow> error + parseState" where
  "processHeading e md children index child st =
     (let isArchive = isArchiveLane e child children index;
          ttl = getStringFromBoundary md (getNodeContentBoundary e child);
          lvl = orOne (ndepth child);
          found = getNextOfType children index ''list'' (listScanCallback e) False;
          shouldMark = snd found
      in case fst found of
           Some lst \<Rightarrow>
             if isArchive then
               (case itemsOfList e md (idCount st) lst of
                  Inl err \<Rightarrow> Inl err
                | Inr items \<Rightarrow>
                    Inr (st\<lparr>archiveItems := archiveItems st @ items,
                            idCount := idCount st + length items\<rparr>))
             else
               (case itemsOfList e md (Suc (idCount st)) lst of
                  Inl err \<Rightarrow> Inl err
                | Inr items \<Rightarrow>
                    Inr (placeLane
                           \<lparr> objId = instanceIds e (idCount st),
                             objData = newLaneData e ttl shouldMark lvl,
                             objChildren = map ItemChild items \<rparr>
                           lvl (st\<lparr>idCount := Suc (idCount st) + length items\<rparr>)))
         | None \<Rightarrow>
             Inr (placeLane
                    \<lparr> objId = instanceIds e (idCount st),
                      objData = newLaneData e ttl shouldMark lvl,
                      objChildren = [] \<rparr>
                    lvl (st\<lparr>idCount := Suc (idCount st)\<rparr>)))"

definition processChild :: "env \<Rightarrow> string \<Rightarrow> node list \<Rightarrow> nat \<times> node \<Rightarrow> parseState \<Rightarrow> error + parseState" where
  "processChild e md children ic st =
     (if ntype (snd ic) = ''heading'' then processHeading e md children (fst ic) (snd ic) st
      else Inr st)"

fun forEachE :: "('a \<Rightarrow> 's \<Rightarrow> error + 's) \<Rightarrow> 'a list \<Rightarrow> 's \<Rightarrow> error + 's" where
  "forEachE f [] s = Inr s"
| "forEachE f (x # xs) s = (case f x s of Inl err \<Rightarrow> Inl err | Inr s' \<Rightarrow> forEachE f xs s')"

definition initialState :: parseState where
  "initialState = \<lparr> heap = [], lanes = [], archiveItems = [], laneStack = [], idCount = 0 \<rparr>"

definition parseBlocks :: "env \<Rightarrow> string \<Rightarrow> node list \<Rightarrow> error + parseState" where
  "parseBlocks e md children = forEachE (processChild e md children) (enumerate 0 children) initialState"

text \<open>Reading the lane trees out of the store. A lane child always has a greater address
  than its owner, so the trees are built from the last object to the first:
  \<open>readHeap objs base\<close> are the trees of the objects \<open>objs\<close> stored from address \<open>base\<close> on.\<close>

definition readChild :: "(nat \<Rightarrow> lane) \<Rightarrow> nat child \<Rightarrow> lane child" where
  "readChild deref c = (case c of ItemChild i \<Rightarrow> ItemChild i | LaneChild a \<Rightarrow> LaneChild (deref a))"

fun readHeap :: "laneObj list \<Rightarrow> nat \<Rightarrow> lane list" where
  "readHeap [] base = []"
| "readHeap (obj # rest) base =
     (let later = readHeap rest (Suc base)
      in Lane (objId obj) (objData obj)
           (map (readChild (\<lambda>a. later ! (a - Suc base))) (objChildren obj)) # later)"

definition boardOfState :: "env \<Rightarrow> (string \<times> string) list \<Rightarrow> (string \<times> string) list \<Rightarrow> parseState \<Rightarrow> board" where
  "boardOfState e sett fm st =
     \<lparr> boardId = filePath e,
       boardChildren = map (\<lambda>a. readHeap (heap st) 0 ! a) (lanes st),
       boardData = \<lparr> isSearching = False, settings = sett, frontmatter = fm,
                     archive = archiveItems st, errors = [] \<rparr> \<rparr>"

definition astToUnhydratedBoard ::
  "env \<Rightarrow> (string \<times> string) list \<Rightarrow> (string \<times> string) list \<Rightarrow> node \<Rightarrow> string \<Rightarrow> error + board" where
  "astToUnhydratedBoard e sett fm root md =
     (case parseBlocks e md (nchildren root) of
        Inl err \<Rightarrow> Inl err
      | Inr st \<Rightarrow> Inr (boardOfState e sett fm st))"

section \<open>updateItemContent and reparseBoard\<close>

definition newline :: string where
  "newline = [CHR 0x0A]"

definition itemToMd :: "env \<Rightarrow> item \<Rightarrow> string" where
  "itemToMd e it =
     ''- ['' @ checkChar (itemData it) @ ''] '' @
       addBlockId e (indentNewLines e (titleRaw (itemData it))) it"

text \<open>\<open>(ast.children[0] as List).children[0]\<close>: reading \<open>children\<close> of a missing first block
  throws; a list without items hands \<open>undefined\<close> to \<open>listItemToItemData\<close>, which throws on
  reading its children.\<close>

definition firstListItem :: "node \<Rightarrow> error + node" where
  "firstListItem ast =
     (case nchildren ast of
        [] \<Rightarrow> Inl (TypeError ''ast.children[0] is undefined'')
      | lst # _ \<Rightarrow>
          (case nchildren lst of
             [] \<Rightarrow> Inl (TypeError ''item is undefined'')
           | li # _ \<Rightarrow> Inr li))"

text \<open>The exception of \<open>hydrateItem\<close> is caught and logged; the item is returned as
  \<open>hydrateItem\<close> left it. Nothing else is caught.\<close>

definition updateItemContent :: "env \<Rightarrow> item \<Rightarrow> string \<Rightarrow> error + item" where
  "updateItemContent e oldItem newContent =
     (let md = ''- ['' @ checkChar (itemData oldItem) @ ''] '' @
                 addBlockId e (indentNewLines e newContent) oldItem
      in case parseFragment e md of
           Inl err \<Rightarrow> Inl err
         | Inr ast \<Rightarrow>
             (case firstListItem ast of
                Inl err \<Rightarrow> Inl err
              | Inr li \<Rightarrow>
                  (case listItemToItemData e md li of
                     Inl err \<Rightarrow> Inl err
                   | Inr d \<Rightarrow> Inr (fst (hydrateItem e (oldItem\<lparr>itemData := d\<rparr>))))))"

text \<open>The callback of the inner \<open>lane.children.map\<close>.\<close>

definition reparseChild :: "env \<Rightarrow> lane child \<Rightarrow> error + lane child" where
  "reparseChild e c =
     (case c of
        ItemChild it \<Rightarrow>
          (case updateItemContent e it (titleRaw (itemData it)) of
             Inl err \<Rightarrow> Inl err
           | Inr it' \<Rightarrow> Inr (ItemChild it'))
      | LaneChild l \<Rightarrow> Inr (LaneChild l))"

definition reparseLane :: "env \<Rightarrow> lane \<Rightarrow> error + lane" where
  "reparseLane e l =
     (case mapE (reparseChild e) (laneChildren l) of
        Inl err \<Rightarrow> Inl err
      | Inr cs \<Rightarrow> Inr (Lane (laneId l) (laneData l) cs))"

text \<open>The result of \<open>reparseBoard\<close> is the new board or the exception that it throws again;
  the second component is the error handed to \<open>stateManager.setError\<close>, if any.\<close>

definition reparseBoard :: "env \<Rightarrow> board \<Rightarrow> (error + board) \<times> error option" where
  "reparseBoard e b =
     (case mapE (reparseLane e) (boardChildren b) of
        Inl err \<Rightarrow> (Inl err, Some err)
      | Inr ls \<Rightarrow> (Inr (b\<lparr>boardChildren := ls\<rparr>), None))"

section \<open>Serialisation\<close>

text \<open>\<open>laneToMd\<close>; \<open>pushChildren\<close> is the \<open>forEach\<close> over the children, which pushes one
  entry onto \<open>lines\<close> for each child.\<close>

function laneToMd :: "env \<Rightarrow> lane \<Rightarrow> string"
  and pushChildren :: "env \<Rightarrow> lane child list \<Rightarrow> string list \<Rightarrow> string list" where
  "laneToMd e (Lane lid d cs) =
     (let lvl = orOne (level d);
          headingPrefix = replicate (nat (max 1 (lvl + 1))) (CHR ''#'');
          lines0 = [headingPrefix @ '' '' @
                      replaceNewLines e (laneTitleWithMaxItems e (laneTitle d) (maxItems d)), []];
          lines1 = (if truthyBool (shouldMarkItemsComplete d)
                    then lines0 @ [completeString e] else lines0);
          lines2 = pushChildren e cs lines1
      in joinWith newline (lines2 @ [[], [], []]))"
| "pushChildren e [] lines = lines"
| "pushChildren e (ItemChild it # cs) lines = pushChildren e cs (lines @ [itemToMd e it])"
| "pushChildren e (LaneChild l # cs) lines = pushChildren e cs (lines @ [laneToMd e l])"
  by pat_completeness auto
termination
  by (relation "measure (\<lambda>x. case x of
                    Inl el \<Rightarrow> 2 * size (snd el) + 1
                  | Inr ecl \<Rightarrow> 2 * size_list (size_child size) (fst (snd ecl)))") auto

definition archiveToMd :: "env \<Rightarrow> item list \<Rightarrow> string" where
  "archiveToMd e arch =
     (if arch \<noteq> []
      then joinWith newline
             (foldl (\<lambda>lines it. lines @ [itemToMd e it])
                    [archiveString e, [], ''## '' @ t e ''Archive'', []] arch)
      else [])"

definition boardToMd :: "env \<Rightarrow> board \<Rightarrow> string" where
  "boardToMd e b =
     (let lanesMd = foldl (\<lambda>md l. md @ laneToMd e l) [] (boardChildren b);
          fm = joinWith newline
                 [''---'', [], stringifyYaml e (frontmatter (boardData b)), ''---'', [], []]
      in fm @ lanesMd @ archiveToMd e (archive (boardData b)) @ settingsToCodeblock e b)"

section \<open>Adding items to a lane (src/components/Lane/Lane.tsx)\<close>

text \<open>\<open>addItems\<close> hands the updated items to one of two board modifiers, which are not
  among the sources; the model returns the call that it makes.\<close>

datatype boardModifierCall =
  PrependItems "int list" "item list"
| AppendItems "int list" "item list"

definition markItem :: "env \<Rightarrow> bool \<Rightarrow> item \<Rightarrow> item" where
  "markItem e mark it =
     it\<lparr>itemData := (itemData it)\<lparr>checked := Some mark,
                                      checkChar := (if mark then getTaskStatusDone e else '' '')\<rparr>\<rparr>"

definition addItems :: "env \<Rightarrow> string \<Rightarrow> int list \<Rightarrow> lane \<Rightarrow> item list \<Rightarrow> boardModifierCall" where
  "addItems e insertionMethod path l items =
     (let mark = truthyBool (shouldMarkItemsComplete (laneData l));
          isCompactPrepend = (insertionMethod = ''prepend-compact'');
          shouldPrepend = (isCompactPrepend \<or> insertionMethod = ''prepend'');
          target = path @ [int (length (laneChildren l)) - 1];
          updated = map (markItem e mark) items
      in if shouldPrepend then PrependItems target updated else AppendItems target updated)"

fun callItems :: "boardModifierCall \<Rightarrow> item list" where
  "callItems (PrependItems p its) = its"
| "callItems (AppendItems p its) = its"

section \<open>Notions used in the properties\<close>

text \<open>The tags of a list item in the order of the source text: the hashtag nodes outside
  code fences, in traversal order.\<close>

definition sourceTags :: "node \<Rightarrow> string list" where
  "sourceTags li =
     map (\<lambda>np. ''#'' @ jsStr (nvalue (fst np)))
       (filter (\<lambda>np. ntype (fst np) = ''hashtag'' \<and> \<not> inFence (snd np)) (preorder None li))"

text \<open>The text that a child of a lane contributes to the document.\<close>

definition childToMd :: "env \<Rightarrow> lane child \<Rightarrow> string" where
  "childToMd e c = (case c of ItemChild it \<Rightarrow> itemToMd e it | LaneChild l \<Rightarrow> laneToMd e l)"

text \<open>The number of heading markers at the start of a line.\<close>

definition markerCount :: "string \<Rightarrow> nat" where
  "markerCount s = length (takeWhile (\<lambda>c. c = CHR ''#'') s)"

text \<open>A consistent comparison function for the elements of a list, as ECMAScript defines
  it for \<open>Array.prototype.sort\<close>: with \<open>a < b\<close>, \<open>a = b\<close> and \<open>a > b\<close> read off the sign of
  \<open>cmp a b\<close>, equality is reflexive, symmetric and transitive, and both strict orders are
  transitive. (That the comparator returns the same number for the same pair is what a
  function is.)\<close>

definition consistentOn :: "('a \<Rightarrow> 'a \<Rightarrow> int) \<Rightarrow> 'a list \<Rightarrow> bool" where
  "consistentOn cmp xs =
     ((\<forall>a\<in>set xs. cmp a a = 0) \<and>
      (\<forall>a\<in>set xs. \<forall>b\<in>set xs. cmp a b = 0 \<longrightarrow> cmp b a = 0) \<and>
      (\<forall>a\<in>set xs. \<forall>b\<in>set xs. \<forall>c\<in>set xs.
          cmp a b = 0 \<longrightarrow> cmp b c = 0 \<longrightarrow> cmp a c = 0) \<and>
      (\<forall>a\<in>set xs. \<forall>b\<in>set xs. \<forall>c\<in>set xs.
          cmp a b < 0 \<longrightarrow> cmp b c < 0 \<longrightarrow> cmp a c < 0) \<and>
      (\<forall>a\<in>set xs. \<forall>b\<in>set xs. \<forall>c\<in>set xs.
          cmp a b > 0 \<longrightarrow> cmp b c > 0 \<longrightarrow> cmp a c > 0))"

subsection \<open>The lane tree and the store\<close>

text \<open>\<open>l > p\<close> on levels that may be \<open>undefined\<close>: a comparison with \<open>undefined\<close> is false.\<close>

definition levelAbove :: "int option \<Rightarrow> int option \<Rightarrow> bool" where
  "levelAbove l p = (case l of None \<Rightarrow> False | Some a \<Rightarrow> (case p of None \<Rightarrow> False | Some b \<Rightarrow> b < a))"

text \<open>All lanes of a lane tree: the lane itself and the lanes nested below it.\<close>

function allLanes :: "lane \<Rightarrow> lane list"
  and childLanes :: "lane child list \<Rightarrow> lane list" where
  "allLanes (Lane lid d cs) = Lane lid d cs # childLanes cs"
| "childLanes [] = []"
| "childLanes (ItemChild it # cs) = childLanes cs"
| "childLanes (LaneChild l # cs) = allLanes l @ childLanes cs"
  by pat_completeness auto
termination
  by (relation "measure (\<lambda>x. case x of
                    Inl l \<Rightarrow> 2 * size l + 1
                  | Inr cs \<Rightarrow> 2 * size_list (size_child size) cs)") auto

text \<open>The addresses of the lanes among the children of a lane object.\<close>

fun laneRefs :: "nat child list \<Rightarrow> nat list" where
  "laneRefs [] = []"
| "laneRefs (ItemChild it # cs) = laneRefs cs"
| "laneRefs (LaneChild a # cs) = a # laneRefs cs"

definition allRefs :: "laneObj list \<Rightarrow> nat list" where
  "allRefs h = concat (map (\<lambda>obj. laneRefs (objChildren obj)) h)"

text \<open>The invariant of the parser state.\<close>

definition stackOk :: "parseState \<Rightarrow> bool" where
  "stackOk st = (\<forall>entry\<in>set (laneStack st).
       fst entry < length (heap st) \<and> level (objData (heap st ! fst entry)) = Some (snd entry))"

definition rootsOk :: "parseState \<Rightarrow> bool" where
  "rootsOk st = (\<forall>a\<in>set (lanes st).
       a < length (heap st) \<and> parentId (objData (heap st ! a)) = None)"

definition refsOk :: "laneObj list \<Rightarrow> bool" where
  "refsOk h = (\<forall>a<length h. \<forall>r\<in>set (laneRefs (objChildren (h ! a))).
       a < r \<and> r < length h \<and>
       levelAbove (level (objData (h ! r))) (level (objData (h ! a))) \<and>
       parentId (objData (h ! r)) = Some (objId (h ! a)))"

definition onceOk :: "parseState \<Rightarrow> bool" where
  "onceOk st = (mset (lanes st) + mset (allRefs (heap st)) = mset [0..<length (heap st)])"

definition stateOk :: "parseState \<Rightarrow> bool" where
  "stateOk st = (stackOk st \<and> rootsOk st \<and> refsOk (heap st) \<and> onceOk st)"

subsection \<open>Archive sections\<close>

text \<open>The list that the parser finds for the heading at an index.\<close>

definition foundList :: "env \<Rightarrow> node list \<Rightarrow> nat \<Rightarrow> node option" where
  "foundList e children index = fst (getNextOfType children index ''list'' (listScanCallback e) False)"

text \<open>A block is an archive section when it is a heading with the archive title, directly
  after a thematic break, for which the parser finds a list.\<close>

definition archiveSection :: "env \<Rightarrow> node list \<Rightarrow> nat \<times> node \<Rightarrow> bool" where
  "archiveSection e children ic =
     (ntype (snd ic) = ''heading'' \<and> toString False (snd ic) = t e ''Archive'' \<and>
      (case getPrevSibling children (fst ic) of
         None \<Rightarrow> False | Some prev \<Rightarrow> ntype prev = ''thematicBreak'') \<and>
      foundList e children (fst ic) \<noteq> None)"

definition archiveListItems :: "env \<Rightarrow> node list \<Rightarrow> nat \<times> node \<Rightarrow> node list" where
  "archiveListItems e children ic =
     (if archiveSection e children ic
      then (case foundList e children (fst ic) of None \<Rightarrow> [] | Some lst \<Rightarrow> nchildren lst)
      else [])"

definition laneHeading :: "env \<Rightarrow> node list \<Rightarrow> nat \<times> node \<Rightarrow> bool" where
  "laneHeading e children ic = (ntype (snd ic) = ''heading'' \<and> \<not> archiveSection e children ic)"

definition headingTitle :: "env \<Rightarrow> string \<Rightarrow> node \<Rightarrow> string" where
  "headingTitle e md child =
     fst (parseLaneTitle e (getStringFromBoundary md (getNodeContentBoundary e child)))"

subsection \<open>Bulk reparse\<close>

text \<open>What \<open>reparseBoard\<close> makes of a child of a top-level lane.\<close>

fun reparsedChild :: "env \<Rightarrow> lane child \<Rightarrow> lane child \<Rightarrow> bool" where
  "reparsedChild e (ItemChild it) c' =
     (map_sum id ItemChild (updateItemContent e it (titleRaw (itemData it))) = Inr c')"
| "reparsedChild e (LaneChild l) c' = (c' = LaneChild l)"

section \<open>Example documents and collaborators\<close>

definition mkNode :: "string \<Rightarrow> node list \<Rightarrow> int \<Rightarrow> int \<Rightarrow> node" where
  "mkNode ty cs s e = Node ty cs s e None None None None None None None None None None"

definition mkValue :: "string \<Rightarrow> string \<Rightarrow> int \<Rightarrow> int \<Rightarrow> node" where
  "mkValue ty v s e = Node ty [] s e (Some v) None None None None None None None None None"

definition mkHeading :: "int \<Rightarrow> node list \<Rightarrow> int \<Rightarrow> int \<Rightarrow> node" where
  "mkHeading d cs s e = Node ''heading'' cs s e None None (Some d) None None None None None None None"

definition mkListItem :: "bool option \<Rightarrow> string option \<Rightarrow> node list \<Rightarrow> int \<Rightarrow> int \<Rightarrow> node" where
  "mkListItem chk cc cs s e =
     Node ''listItem'' cs s e None None None chk cc None None None None None"

text \<open>A stand-in for \<open>getNodeContentBoundary\<close>: from the first child to the last.\<close>

definition demoBoundary :: "node \<Rightarrow> int \<times> int" where
  "demoBoundary n =
     (case nchildren n of
        [] \<Rightarrow> (startOffset n, endOffset n)
      | c # _ \<Rightarrow> (startOffset c, endOffset (last (nchildren n))))"

text \<open>A stand-in for \<open>parseFragment\<close> that reads \<open>- [c] text\<close> as one task whose content
  is a single text; a fragment without text gives a list item without children.\<close>

definition demoParseFragment :: "string \<Rightarrow> error + node" where
  "demoParseFragment md =
     (let n = int (length md);
          c = take 1 (drop 3 md);
          body = drop 6 md;
          content = (if body = [] then []
                     else [mkNode ''paragraph'' [mkValue ''text'' body 6 n] 6 n])
      in Inr (mkNode ''root''
                [mkNode ''list'' [mkListItem (Some (c \<noteq> '' '')) (Some c) content 0 n] 0 n] 0 n))"

definition demoEnv :: env where
  "demoEnv =
     \<lparr> moveTags = False, moveDates = False, moveTaskMetadata = False,
       inlineMetadataPosition = ''body'',
       getNodeContentBoundary = demoBoundary,
       replaceBrs = (\<lambda>s. s), dedentNewLines = (\<lambda>s. s), indentNewLines = (\<lambda>s. s),
       removeBlockId = (\<lambda>s. s), addBlockId = (\<lambda>s it. s),
       markRangeForDeletion = (\<lambda>s r. s), executeDeletion = (\<lambda>s. s),
       preprocessTitle = (\<lambda>s. s),
       extractInlineFields = (\<lambda>s strict. []),
       taskFieldsHas = (\<lambda>k. k = ''due'' \<or> k = ''scheduled'' \<or> k = ''start''),
       defaultSort = (\<lambda>a b. int (length a) - int (length b)),
       parseLaneTitle = (\<lambda>s. (s, Some 0)),
       laneTitleWithMaxItems = (\<lambda>s m. s),
       replaceNewLines = (\<lambda>s. s),
       parseFragment = demoParseFragment,
       hydrateItem = (\<lambda>it. (it, None)),
       t = (\<lambda>s. s),
       archiveString = ''***'', completeString = ''**Complete**'',
       settingsToCodeblock = (\<lambda>b. []),
       stringifyYaml = (\<lambda>fm. []),
       instanceIds = (\<lambda>n. replicate (Suc n) (CHR ''i'')),
       getTaskStatusDone = ''x'',
       filePath = ''board.md'' \<rparr>"

text \<open>The list item of \<open>- [ ] go #bb #a\<close>.\<close>

definition taggedItem :: node where
  "taggedItem =
     mkListItem (Some False) (Some '' '')
       [mkNode ''paragraph''
          [mkValue ''text'' ''go '' 6 9, mkValue ''hashtag'' ''bb'' 9 12,
           mkValue ''text'' '' '' 12 13, mkValue ''hashtag'' ''a'' 13 15] 6 15] 0 15"

definition dueField :: inlineField where
  "dueField = \<lparr> fkey = ''due'', fvalue = ''1'', fstart = 1, fend = 10 \<rparr>"

definition dueTitle :: string where
  "dueTitle = CHR 0x0A # ''[due:: 1]''"

definition dueEnv :: env where
  "dueEnv = demoEnv\<lparr>extractInlineFields := (\<lambda>s strict. if s = dueTitle then [dueField] else [])\<rparr>"

definition dueItem :: node where
  "dueItem =
     mkListItem (Some False) (Some '' '')
       [mkNode ''paragraph'' [mkValue ''text'' dueTitle 6 16] 6 16] 0 16"

definition fieldsTitle :: string where
  "fieldsTitle = ''a [due:: 1] '' @ [CHR 0x0A] @ ''b [due:: 2] [x:: 3]''"

definition fieldsFound :: "inlineField list" where
  "fieldsFound =
     [\<lparr> fkey = ''due'', fvalue = ''1'', fstart = 2, fend = 11 \<rparr>,
      \<lparr> fkey = ''due'', fvalue = ''2'', fstart = 15, fend = 24 \<rparr>,
      \<lparr> fkey = ''x'', fvalue = ''3'', fstart = 25, fend = 32 \<rparr>]"

definition fieldsEnv :: env where
  "fieldsEnv = demoEnv\<lparr>extractInlineFields := (\<lambda>s strict. if s = fieldsTitle then fieldsFound else [])\<rparr>"

definition fieldsItem :: node where
  "fieldsItem =
     mkListItem (Some False) (Some '' '')
       [mkNode ''paragraph'' [mkValue ''text'' fieldsTitle 6 38] 6 38] 0 38"

text \<open>A lane that marks its items complete, with one item and one nested lane.\<close>

definition doneLane :: lane where
  "doneLane =
     Lane ''l1''
       \<lparr> shouldMarkItemsComplete = Some True, laneTitle = ''Done'', maxItems = Some 0,
         forceEditModeLane = None, sorted = None, level = Some 2, isCollapsed = Some False,
         parentId = None \<rparr>
       [ItemChild
          \<lparr> itemId = ''i1'',
            itemData =
              \<lparr> blockId = None, checked = Some True, checkChar = ''x'', title = ''a'',
                titleRaw = ''a'', titleSearch = ''a'', titleSearchRaw = ''a'',
                metadata = \<lparr> dateStr = None, date = None, timeStr = None, time = None,
                             tags = Some [], fileAccessor = None, fileRef = None,
                             fileMetadata = None, fileMetadataOrder = None,
                             inlineMetadata = None \<rparr>,
                forceEditMode = None \<rparr> \<rparr>,
        LaneChild
          (Lane ''l2''
             \<lparr> shouldMarkItemsComplete = Some False, laneTitle = ''Sub'', maxItems = Some 0,
               forceEditModeLane = None, sorted = None, level = Some 3,
               isCollapsed = Some False, parentId = Some ''l1'' \<rparr> [])]"

text \<open>The document
  \<^verbatim>\<open>## A\<close>, \<^verbatim>\<open>### B\<close>, \<^verbatim>\<open>- [ ] x\<close>, \<^verbatim>\<open>## C\<close>
  with its blocks two characters apart.\<close>

definition nestedMd :: string where
  "nestedMd = ''## A'' @ [CHR 0x0A, CHR 0x0A] @ ''### B'' @ [CHR 0x0A, CHR 0x0A] @ ''- [ ] x'' @
              [CHR 0x0A, CHR 0x0A] @ ''## C'' @ [CHR 0x0A]"

definition nestedDoc :: node where
  "nestedDoc =
     mkNode ''root''
       [mkHeading 2 [mkValue ''text'' ''A'' 3 4] 0 4,
        mkHeading 3 [mkValue ''text'' ''B'' 10 11] 6 11,
        mkNode ''list''
          [mkListItem (Some False) (Some '' '')
             [mkNode ''paragraph'' [mkValue ''text'' ''x'' 19 20] 19 20] 13 20] 13 20,
        mkHeading 2 [mkValue ''text'' ''C'' 25 26] 22 26] 0 27"

text \<open>The document
  \<^verbatim>\<open>## A\<close>, \<^verbatim>\<open>- [ ] x\<close>, \<^verbatim>\<open>***\<close>, \<^verbatim>\<open>## Archive\<close>, \<^verbatim>\<open>- [ ] y\<close>
  with its blocks two characters apart.\<close>

definition archiveMd :: string where
  "archiveMd = ''## A'' @ [CHR 0x0A, CHR 0x0A] @ ''- [ ] x'' @ [CHR 0x0A, CHR 0x0A] @ ''***'' @
               [CHR 0x0A, CHR 0x0A] @ ''## Archive'' @ [CHR 0x0A, CHR 0x0A] @ ''- [ ] y'' @ [CHR 0x0A]"

definition archiveDoc :: node where
  "archiveDoc =
     mkNode ''root''
       [mkHeading 2 [mkValue ''text'' ''A'' 3 4] 0 4,
        mkNode ''list''
          [mkListItem (Some False) (Some '' '')
             [mkNode ''paragraph'' [mkValue ''text'' ''x'' 12 13] 12 13] 6 13] 6 13,
        mkNode ''thematicBreak'' [] 15 18,
        mkHeading 2 [mkValue ''text'' ''Archive'' 23 30] 20 30,
        mkNode ''list''
          [mkListItem (Some False) (Some '' '')
             [mkNode ''paragraph'' [mkValue ''text'' ''y'' 38 39] 38 39] 32 39] 32 39] 0 40"

text \<open>The document \<^verbatim>\<open>***\<close>, \<^verbatim>\<open>## Archive\<close>: an archive heading with no list after it.\<close>

definition loneArchiveMd :: string where
  "loneArchiveMd = ''***'' @ [CHR 0x0A, CHR 0x0A] @ ''## Archive'' @ [CHR 0x0A]"

definition loneArchiveDoc :: node where
  "loneArchiveDoc =
     mkNode ''root''
       [mkNode ''thematicBreak'' [] 0 3,
        mkHeading 2 [mkValue ''text'' ''Archive'' 8 15] 5 15] 0 16"

text \<open>The document \<^verbatim>\<open>## A\<close>, the text that \<open>boardToMd\<close> writes for its board, and
  the syntax tree of that text: a front matter block and a heading of depth 3.\<close>

definition headingDoc :: node where
  "headingDoc = mkNode ''root'' [mkHeading 2 [mkValue ''text'' ''A'' 3 4] 0 4] 0 4"

definition rewrittenMd :: string where
  "rewrittenMd = ''---'' @ [CHR 0x0A, CHR 0x0A, CHR 0x0A] @ ''---'' @ [CHR 0x0A, CHR 0x0A] @
                 ''### A'' @ [CHR 0x0A, CHR 0x0A, CHR 0x0A, CHR 0x0A]"

definition rewrittenDoc :: node where
  "rewrittenDoc =
     mkNode ''root''
       [mkValue ''yaml'' [] 0 9,
        mkHeading 3 [mkValue ''text'' ''A'' 15 16] 11 16] 0 20"

text \<open>Boards for \<open>reparseBoard\<close>: an item whose title is out of date, an item without text
  (the stand-in parser gives a list item without children for it), and boards that hold
  them directly below a top-level lane or below a nested lane.\<close>

definition plainLaneData :: "string \<Rightarrow> int \<Rightarrow> string option \<Rightarrow> laneData" where
  "plainLaneData ttl lvl parent =
     \<lparr> shouldMarkItemsComplete = Some False, laneTitle = ttl, maxItems = Some 0,
       forceEditModeLane = None, sorted = None, level = Some lvl, isCollapsed = Some False,
       parentId = parent \<rparr>"

definition plainItem :: "string \<Rightarrow> string \<Rightarrow> string \<Rightarrow> item" where
  "plainItem iid raw shown =
     \<lparr> itemId = iid,
       itemData =
         \<lparr> blockId = None, checked = Some False, checkChar = '' '', title = shown,
           titleRaw = raw, titleSearch = shown, titleSearchRaw = shown,
           metadata = \<lparr> dateStr = None, date = None, timeStr = None, time = None,
                        tags = Some [], fileAccessor = None, fileRef = None,
                        fileMetadata = None, fileMetadataOrder = None,
                        inlineMetadata = None \<rparr>,
           forceEditMode = None \<rparr> \<rparr>"

definition staleItem :: item where
  "staleItem = plainItem ''i1'' ''a'' ''stale''"

definition emptyItem :: item where
  "emptyItem = plainItem ''i2'' [] []"


definition boardOf :: "lane list \<Rightarrow> board" where
  "boardOf ls =
     \<lparr> boardId = ''board.md'', boardChildren = ls,
       boardData = \<lparr> isSearching = False, settings = [], frontmatter = [], archive = [],
                     errors = [] \<rparr> \<rparr>"

definition brokenBoard :: board where
  "brokenBoard =
     boardOf [Lane ''l1'' (plainLaneData ''A'' 2 None) [ItemChild staleItem, ItemChild emptyItem],
              Lane ''l2'' (plainLaneData ''B'' 2 None) [ItemChild staleItem]]"

definition nestedBoard :: board where
  "nestedBoard =
     boardOf [Lane ''l1'' (plainLaneData ''A'' 2 None)
                [LaneChild (Lane ''l2'' (plainLaneData ''B'' 3 (Some ''l1'')) [ItemChild staleItem])]]"

definition mixedBoard :: board where
  "mixedBoard =
     boardOf [Lane ''l1'' (plainLaneData ''A'' 2 None)
                [ItemChild staleItem,
                 LaneChild (Lane ''l2'' (plainLaneData ''B'' 3 (Some ''l1'')) [ItemChild staleItem])]]"

section \<open>Properties\<close>

subsection \<open>Check character\<close>

lemma listItemToItemData_Inr:
  assumes "listItemToItemData e md li = Inr d"
  obtains b where "itemBoundary e li = Inr b"
    and "d = sortTags e (withInlineFields e (visitedItemData e md li b))"
  using assms unfolding listItemToItemData_def by (cases "itemBoundary e li") simp_all

lemma listItemToItemData_returns:
  "nchildren li \<noteq> [] \<Longrightarrow> \<exists>d. listItemToItemData e md li = Inr d"
  unfolding listItemToItemData_def itemBoundary_def Let_def by (cases "nchildren li") simp_all

lemma metaVisitor_check:
  "checkChar (fst (metaVisitor e s np st)) = checkChar (fst st)"
  by (simp add: metaVisitor_def Let_def)

lemma fold_metaVisitor_check:
  "checkChar (fst (fold (metaVisitor e s) nps st)) = checkChar (fst st)"
  by (induction nps arbitrary: st) (simp_all add: metaVisitor_check)

lemma visitedItemData_check:
  "checkChar (visitedItemData e md li b) = checkChar (initialItemData e li (itemContentOf md li b))"
  by (simp add: visitedItemData_def Let_def visitMeta_def fold_metaVisitor_check)

lemma withInlineFields_check: "checkChar (withInlineFields e d) = checkChar d"
  by (simp add: withInlineFields_def Let_def)

lemma sortTags_check: "checkChar (sortTags e d) = checkChar d"
  by (simp add: sortTags_def)

text \<open>
  C10. A list item with at least one child is decomposed, and the check character of the
  result is a single space whenever the item is not checked (the flag is false or absent),
  whatever marker the source carried, and also when the item is checked but its node
  carries no check character.
\<close>

theorem listItemToItemData_unchecked_checkChar:
  assumes "nchildren li \<noteq> []"
  shows "\<exists>d. listItemToItemData e md li = Inr d \<and>
           (nchecked li \<noteq> Some True \<longrightarrow> checkChar d = '' '') \<and>
           (nchecked li = Some True \<and> ncheckChar li = None \<longrightarrow> checkChar d = '' '')"
proof -
  from assms obtain d where d: "listItemToItemData e md li = Inr d"
    using listItemToItemData_returns by blast
  then obtain b where "d = sortTags e (withInlineFields e (visitedItemData e md li b))"
    by (rule listItemToItemData_Inr)
  then have c: "checkChar d = checkChar (initialItemData e li (itemContentOf md li b))"
    by (simp add: sortTags_check withInlineFields_check visitedItemData_check)
  have "nchecked li \<noteq> Some True \<Longrightarrow> \<not> truthyBool (nchecked li)"
    by (cases "nchecked li") (auto simp: truthyBool_def)
  with c d show ?thesis
    by (auto simp: initialItemData_def truthyStr_def)
qed

theorem listItemToItemData_unchecked_checkChar_witness:
  "nchildren (mkListItem (Some False) (Some ''/'') [mkValue ''text'' ''a'' 6 7] 0 7) \<noteq> [] \<and>
   (\<exists>d. listItemToItemData demoEnv ''- [/] a'' (mkListItem (Some False) (Some ''/'') [mkValue ''text'' ''a'' 6 7] 0 7) = Inr d \<and>
        checkChar d = '' '')"
  using listItemToItemData_unchecked_checkChar
    [of "mkListItem (Some False) (Some ''/'') [mkValue ''text'' ''a'' 6 7] 0 7" demoEnv "''- [/] a''"]
  by (simp add: mkListItem_def)


subsection \<open>Tags\<close>

lemma metaVisitor_tags:
  "tags (metadata (fst (metaVisitor e s np st))) =
     (if ntype (fst np) = ''hashtag'' \<and> \<not> inFence (snd np)
      then pushTag (''#'' @ jsStr (nvalue (fst np))) (tags (metadata (fst st)))
      else tags (metadata (fst st)))"
  by (simp add: metaVisitor_def Let_def)

lemma fold_metaVisitor_tags:
  "tags (metadata (fst st)) = Some ts \<Longrightarrow>
   tags (metadata (fst (fold (metaVisitor e s) nps st))) =
     Some (ts @ map (\<lambda>np. ''#'' @ jsStr (nvalue (fst np)))
                  (filter (\<lambda>np. ntype (fst np) = ''hashtag'' \<and> \<not> inFence (snd np)) nps))"
proof (induction nps arbitrary: st ts)
  case Nil
  then show ?case by simp
next
  case (Cons np nps)
  show ?case
  proof (cases "ntype (fst np) = ''hashtag'' \<and> \<not> inFence (snd np)")
    case True
    then have "tags (metadata (fst (metaVisitor e s np st))) = Some (ts @ [''#'' @ jsStr (nvalue (fst np))])"
      using Cons.prems by (simp add: metaVisitor_tags pushTag_def)
    from Cons.IH[OF this] True show ?thesis by auto
  next
    case False
    then have "tags (metadata (fst (metaVisitor e s np st))) = Some ts"
      using Cons.prems by (auto simp add: metaVisitor_tags)
    from Cons.IH[OF this] False show ?thesis by auto
  qed
qed

lemma filter_filter_hashtag:
  "filter (\<lambda>np. ntype (fst np) = ''hashtag'' \<and> \<not> inFence (snd np))
      (filter (\<lambda>np. ntype (fst np) \<noteq> ''paragraph'') nps) =
   filter (\<lambda>np. ntype (fst np) = ''hashtag'' \<and> \<not> inFence (snd np)) nps"
  by (induction nps) auto

lemma visitedItemData_tags: "tags (metadata (visitedItemData e md li b)) = Some (sourceTags li)"
proof -
  let ?c = "itemContentOf md li b"
  let ?nps = "filter (\<lambda>np. ntype (fst np) \<noteq> ''paragraph'') (preorder None li)"
  have "tags (metadata (fst (initialItemData e li ?c, ?c))) = Some []"
    by (simp add: initialItemData_def)
  then have "tags (metadata (fst (fold (metaVisitor e (fst b)) ?nps (initialItemData e li ?c, ?c)))) =
     Some ([] @ map (\<lambda>np. ''#'' @ jsStr (nvalue (fst np)))
                  (filter (\<lambda>np. ntype (fst np) = ''hashtag'' \<and> \<not> inFence (snd np)) ?nps))"
    by (rule fold_metaVisitor_tags)
  then have "tags (metadata (fst (visitMeta e (fst b) li (initialItemData e li ?c, ?c)))) = Some (sourceTags li)"
    unfolding visitMeta_def sourceTags_def filter_filter_hashtag by simp
  then show ?thesis
    unfolding visitedItemData_def Let_def by simp
qed


lemma withInlineFields_tags: "tags (metadata (withInlineFields e d)) = tags (metadata d)"
  by (simp add: withInlineFields_def Let_def)

lemma listItemToItemData_tags:
  assumes "listItemToItemData e md li = Inr d"
  shows "tags (metadata d) = Some (jsSort (defaultSort e) (sourceTags li))"
proof -
  from assms obtain b where "d = sortTags e (withInlineFields e (visitedItemData e md li b))"
    by (rule listItemToItemData_Inr)
  then show ?thesis
    by (simp add: sortTags_def withInlineFields_tags visitedItemData_tags)
qed

lemma set_insertBy: "set (insertBy cmp x ys) = insert x (set ys)"
  by (induction ys) auto

lemma mset_insertBy: "mset (insertBy cmp x ys) = add_mset x (mset ys)"
  by (induction ys) auto

lemma mset_jsSort: "mset (jsSort cmp xs) = mset xs"
  by (induction xs) (simp_all add: jsSort_def mset_insertBy)

lemma sorted_insertBy:
  assumes total: "\<forall>a\<in>S. \<forall>b\<in>S. cmp a b \<le> 0 \<or> cmp b a \<le> 0"
    and trans: "\<forall>a\<in>S. \<forall>b\<in>S. \<forall>c\<in>S. cmp a b \<le> 0 \<longrightarrow> cmp b c \<le> 0 \<longrightarrow> cmp a c \<le> 0"
    and x: "x \<in> S"
  shows "set ys \<subseteq> S \<Longrightarrow> sorted_wrt (\<lambda>a b. cmp a b \<le> 0) ys \<Longrightarrow>
         sorted_wrt (\<lambda>a b. cmp a b \<le> 0) (insertBy cmp x ys)"
proof (induction ys)
  case Nil
  then show ?case by simp
next
  case (Cons y ys)
  from Cons.prems have tl: "sorted_wrt (\<lambda>a b. cmp a b \<le> 0) ys"
    and hd: "\<forall>z\<in>set ys. cmp y z \<le> 0"
    and y: "y \<in> S" and ys: "set ys \<subseteq> S" by simp_all
  show ?case
  proof (cases "cmp x y \<le> 0")
    case True
    have "\<forall>z\<in>set ys. cmp x z \<le> 0"
    proof
      fix z assume z: "z \<in> set ys"
      with hd have "cmp y z \<le> 0" by simp
      moreover from z ys have "z \<in> S" by blast
      ultimately show "cmp x z \<le> 0" using trans x y True by blast
    qed
    with True tl hd show ?thesis by simp
  next
    case False
    then have "cmp y x \<le> 0" using total x y by blast
    moreover have "sorted_wrt (\<lambda>a b. cmp a b \<le> 0) (insertBy cmp x ys)"
      using ys tl by (rule Cons.IH)
    ultimately show ?thesis using False hd by (simp add: set_insertBy)
  qed
qed

lemma set_jsSort: "set (jsSort cmp xs) = set xs"
  by (induction xs) (simp_all add: jsSort_def set_insertBy)

lemma sorted_jsSort_on:
  assumes total: "\<forall>a\<in>S. \<forall>b\<in>S. cmp a b \<le> 0 \<or> cmp b a \<le> 0"
    and trans: "\<forall>a\<in>S. \<forall>b\<in>S. \<forall>c\<in>S. cmp a b \<le> 0 \<longrightarrow> cmp b c \<le> 0 \<longrightarrow> cmp a c \<le> 0"
  shows "set xs \<subseteq> S \<Longrightarrow> sorted_wrt (\<lambda>a b. cmp a b \<le> 0) (jsSort cmp xs)"
proof (induction xs)
  case Nil
  then show ?case by (simp add: jsSort_def)
next
  case (Cons x xs)
  then have x: "x \<in> S" and xs: "set xs \<subseteq> S" by simp_all
  have step: "jsSort cmp (x # xs) = insertBy cmp x (jsSort cmp xs)" by (simp add: jsSort_def)
  have sub: "set (jsSort cmp xs) \<subseteq> S" using xs by (simp add: set_jsSort)
  have srt: "sorted_wrt (\<lambda>a b. cmp a b \<le> 0) (jsSort cmp xs)" using xs by (rule Cons.IH)
  have "sorted_wrt (\<lambda>a b. cmp a b \<le> 0) (insertBy cmp x (jsSort cmp xs))"
    using total trans x sub srt by (rule sorted_insertBy)
  with step show ?case by simp
qed

lemma consistentOn_flip_less:
  assumes c: "consistentOn cmp xs" and a: "a \<in> set xs" and b: "b \<in> set xs"
    and lt: "cmp a b < 0"
  shows "cmp b a > 0"
proof (rule ccontr)
  assume "\<not> cmp b a > 0"
  then consider "cmp b a < 0" | "cmp b a = 0" by linarith
  then show False
  proof cases
    case 1
    from c a b have "cmp a b < 0 \<longrightarrow> cmp b a < 0 \<longrightarrow> cmp a a < 0"
      unfolding consistentOn_def by blast
    with lt 1 have "cmp a a < 0" by simp
    moreover from c a have "cmp a a = 0" unfolding consistentOn_def by blast
    ultimately show False by simp
  next
    case 2
    from c a b have "cmp b a = 0 \<longrightarrow> cmp a b = 0" unfolding consistentOn_def by blast
    with 2 lt show False by simp
  qed
qed

lemma consistentOn_flip_greater:
  assumes c: "consistentOn cmp xs" and a: "a \<in> set xs" and b: "b \<in> set xs"
    and gt: "cmp a b > 0"
  shows "cmp b a < 0"
proof (rule ccontr)
  assume "\<not> cmp b a < 0"
  then consider "cmp b a > 0" | "cmp b a = 0" by linarith
  then show False
  proof cases
    case 1
    from c a b have "cmp a b > 0 \<longrightarrow> cmp b a > 0 \<longrightarrow> cmp a a > 0"
      unfolding consistentOn_def by blast
    with gt 1 have "cmp a a > 0" by simp
    moreover from c a have "cmp a a = 0" unfolding consistentOn_def by blast
    ultimately show False by simp
  next
    case 2
    from c a b have "cmp b a = 0 \<longrightarrow> cmp a b = 0" unfolding consistentOn_def by blast
    with 2 gt show False by simp
  qed
qed

lemma consistentOn_total:
  assumes c: "consistentOn cmp xs" and a: "a \<in> set xs" and b: "b \<in> set xs"
  shows "cmp a b \<le> 0 \<or> cmp b a \<le> 0"
proof (cases "cmp a b \<le> 0")
  case True
  then show ?thesis by simp
next
  case False
  then have "cmp a b > 0" by simp
  with c a b have "cmp b a < 0" by (rule consistentOn_flip_greater)
  then show ?thesis by simp
qed

lemma consistentOn_trans:
  assumes c: "consistentOn cmp xs"
    and a: "a \<in> set xs" and b: "b \<in> set xs" and d: "d \<in> set xs"
    and ab: "cmp a b \<le> 0" and bd: "cmp b d \<le> 0"
  shows "cmp a d \<le> 0"
proof (rule ccontr)
  assume "\<not> cmp a d \<le> 0"
  then have "cmp a d > 0" by simp
  with c a d have da: "cmp d a < 0" by (rule consistentOn_flip_greater)
  have ltT: "\<And>x y z. x \<in> set xs \<Longrightarrow> y \<in> set xs \<Longrightarrow> z \<in> set xs \<Longrightarrow>
                cmp x y < 0 \<Longrightarrow> cmp y z < 0 \<Longrightarrow> cmp x z < 0"
    using c unfolding consistentOn_def by blast
  have eqT: "\<And>x y z. x \<in> set xs \<Longrightarrow> y \<in> set xs \<Longrightarrow> z \<in> set xs \<Longrightarrow>
                cmp x y = 0 \<Longrightarrow> cmp y z = 0 \<Longrightarrow> cmp x z = 0"
    using c unfolding consistentOn_def by blast
  have eqS: "\<And>x y. x \<in> set xs \<Longrightarrow> y \<in> set xs \<Longrightarrow> cmp x y = 0 \<Longrightarrow> cmp y x = 0"
    using c unfolding consistentOn_def by blast
  from ab consider "cmp a b < 0" | "cmp a b = 0" by linarith
  then show False
  proof cases
    case 1
    with da have "cmp d b < 0" using ltT[OF d a b] by simp
    with c d b have "cmp b d > 0" by (rule consistentOn_flip_less)
    with bd show False by simp
  next
    case ab0: 2
    from bd consider "cmp b d < 0" | "cmp b d = 0" by linarith
    then show False
    proof cases
      case 1
      with da have "cmp b a < 0" using ltT[OF b d a] by simp
      moreover from ab0 have "cmp b a = 0" using eqS[OF a b] by simp
      ultimately show False by simp
    next
      case 2
      with ab0 have "cmp a d = 0" using eqT[OF a b d] by simp
      then have "cmp d a = 0" using eqS[OF a d] by simp
      with da show False by simp
    qed
  qed
qed

lemma sorted_jsSort:
  assumes "consistentOn cmp xs"
  shows "sorted_wrt (\<lambda>a b. cmp a b \<le> 0) (jsSort cmp xs)"
proof (rule sorted_jsSort_on[of "set xs"])
  show "\<forall>a\<in>set xs. \<forall>b\<in>set xs. cmp a b \<le> 0 \<or> cmp b a \<le> 0"
    using consistentOn_total[OF assms] by blast
  show "\<forall>a\<in>set xs. \<forall>b\<in>set xs. \<forall>c\<in>set xs. cmp a b \<le> 0 \<longrightarrow> cmp b c \<le> 0 \<longrightarrow> cmp a c \<le> 0"
    using consistentOn_trans[OF assms] by blast
  show "set xs \<subseteq> set xs" by simp
qed

text \<open>
  C8. When \<open>defaultSort\<close> is a consistent comparison function on the tags of the item, as
  ECMAScript asks of the comparator of \<open>Array.prototype.sort\<close>, the tags of the item data
  that \<open>listItemToItemData\<close> returns are sorted in ascending order of \<open>defaultSort\<close>, and
  they are the hashtags of the source text, whatever their order there.
\<close>

theorem listItemToItemData_tags_sorted:
  assumes "consistentOn (defaultSort e) (sourceTags li)"
    and ret: "listItemToItemData e md li = Inr d"
  shows "\<exists>ts. tags (metadata d) = Some ts \<and> sorted_wrt (\<lambda>a b. defaultSort e a b \<le> 0) ts \<and>
              mset ts = mset (sourceTags li)"
proof -
  have "sorted_wrt (\<lambda>a b. defaultSort e a b \<le> 0) (jsSort (defaultSort e) (sourceTags li))"
    using assms(1) by (rule sorted_jsSort)
  then show ?thesis using listItemToItemData_tags[OF ret] by (simp add: mset_jsSort)
qed

lemma taggedItem_data:
  "\<exists>d. listItemToItemData demoEnv ''- [ ] go #bb #a'' taggedItem = Inr d"
  by (rule listItemToItemData_returns) (simp add: taggedItem_def mkListItem_def)

lemma sourceTags_taggedItem: "sourceTags taggedItem = [''#bb'', ''#a'']"
  by (simp add: sourceTags_def taggedItem_def mkListItem_def mkNode_def mkValue_def inFence_def jsStr_def)

theorem listItemToItemData_tags_sorted_witness:
  "consistentOn (defaultSort demoEnv) (sourceTags taggedItem) \<and>
   (\<exists>d. listItemToItemData demoEnv ''- [ ] go #bb #a'' taggedItem = Inr d \<and>
     (\<exists>ts. tags (metadata d) = Some ts \<and> sorted_wrt (\<lambda>a b. defaultSort demoEnv a b \<le> 0) ts \<and>
              mset ts = mset [''#bb'', ''#a'']))"
proof -
  have c: "consistentOn (defaultSort demoEnv) (sourceTags taggedItem)"
    by (simp add: consistentOn_def sourceTags_taggedItem demoEnv_def)
  obtain d where d: "listItemToItemData demoEnv ''- [ ] go #bb #a'' taggedItem = Inr d"
    using taggedItem_data by blast
  from listItemToItemData_tags_sorted[OF c d] c d show ?thesis
    by (simp add: sourceTags_taggedItem)
qed

subsection \<open>Inline fields\<close>

lemma foldl_keepField:
  "foldl (keepField e k) acc fs =
     acc @ filter (\<lambda>f. \<not> taskFieldsHas e (fkey f) \<or> k \<le> 0 \<or> fend f < k) fs"
  by (induction fs arbitrary: acc) (auto simp: keepField_def)

lemma indexOfChar_neg: "indexOfChar c s < 0 \<longleftrightarrow> c \<notin> set s"
  by (induction s) (auto simp: Let_def)

lemma indexOfChar_ge: "indexOfChar c s \<ge> -1"
  by (induction s) (auto simp: Let_def)

lemma indexOfChar_zero: "indexOfChar c s = 0 \<longleftrightarrow> take 1 s = [c]"
proof (cases s)
  case Nil
  then show ?thesis by simp
next
  case (Cons x xs)
  have "indexOfChar c xs \<ge> -1" by (rule indexOfChar_ge)
  then show ?thesis using Cons by (auto simp: Let_def)
qed

lemma indexOfChar_le0: "indexOfChar c s \<le> 0 \<longleftrightarrow> c \<notin> set s \<or> take 1 s = [c]"
  using indexOfChar_neg[of c s] indexOfChar_zero[of c s] by linarith

lemma withInlineFields_inline:
  "inlineMetadata (metadata (withInlineFields e d)) =
     (if extractInlineFields e (title d) True = [] then inlineMetadata (metadata d)
      else Some (filter (\<lambda>f. \<not> taskFieldsHas e (fkey f) \<or> indexOfChar (CHR 0x0A) (title d) \<le> 0
                            \<or> fend f < indexOfChar (CHR 0x0A) (title d))
                   (extractInlineFields e (title d) True)))"
  by (simp add: withInlineFields_def Let_def foldl_keepField)

lemma metaVisitor_inline:
  "inlineMetadata (metadata (fst (metaVisitor e s np st))) = inlineMetadata (metadata (fst st))"
  by (simp add: metaVisitor_def Let_def)

lemma fold_metaVisitor_inline:
  "inlineMetadata (metadata (fst (fold (metaVisitor e s) nps st))) = inlineMetadata (metadata (fst st))"
  by (induction nps arbitrary: st) (simp_all add: metaVisitor_inline)

lemma visitedItemData_inline: "inlineMetadata (metadata (visitedItemData e md li b)) = None"
proof -
  have "inlineMetadata (metadata (fst (visitMeta e (fst b) li
          (initialItemData e li (itemContentOf md li b), itemContentOf md li b)))) = None"
    unfolding visitMeta_def fold_metaVisitor_inline by (simp add: initialItemData_def)
  then show ?thesis unfolding visitedItemData_def Let_def by simp
qed

lemma sortTags_inline: "inlineMetadata (metadata (sortTags e d)) = inlineMetadata (metadata d)"
  by (simp add: sortTags_def)

text \<open>
  C6, amended. Let the title be the one that \<open>listItemToItemData\<close> hands to
  \<open>extractInlineFields\<close>. When no field is extracted the item has no inline metadata.
  Otherwise a field is retained, in the order of extraction, exactly when its key is not a
  reserved task field, or the title has no line break, or the title begins with a line
  break, or the field ends strictly before the first line break.
\<close>

theorem listItemToItemData_inlineMetadata:
  assumes "listItemToItemData e md li = Inr d"
    and "itemBoundary e li = Inr b"
    and "ttl = title (visitedItemData e md li b)"
  shows "inlineMetadata (metadata d) =
     (if extractInlineFields e ttl True = [] then None
      else Some (filter (\<lambda>f. \<not> taskFieldsHas e (fkey f) \<or> CHR 0x0A \<notin> set ttl \<or> take 1 ttl = newline
                            \<or> fend f < indexOfChar (CHR 0x0A) ttl)
                   (extractInlineFields e ttl True)))"
proof -
  from assms(1,2) have "d = sortTags e (withInlineFields e (visitedItemData e md li b))"
    unfolding listItemToItemData_def by simp
  then have "inlineMetadata (metadata d) =
      inlineMetadata (metadata (withInlineFields e (visitedItemData e md li b)))"
    by (simp add: sortTags_inline)
  also have "\<dots> = (if extractInlineFields e ttl True = [] then None
      else Some (filter (\<lambda>f. \<not> taskFieldsHas e (fkey f) \<or> indexOfChar (CHR 0x0A) ttl \<le> 0
                            \<or> fend f < indexOfChar (CHR 0x0A) ttl)
                   (extractInlineFields e ttl True)))"
    unfolding withInlineFields_inline assms(3) by (simp add: visitedItemData_inline)
  finally show ?thesis by (simp add: indexOfChar_le0 newline_def disj_assoc)
qed

lemma dueItem_boundary: "itemBoundary dueEnv dueItem = Inr (6, 16)"
  by (simp add: itemBoundary_def dueItem_def mkListItem_def mkNode_def mkValue_def dueEnv_def
      demoEnv_def demoBoundary_def)

lemma dueItem_title: "title (visitedItemData dueEnv (''- [ ] '' @ dueTitle) dueItem (6, 16)) = dueTitle"
  by (simp add: visitedItemData_def visitMeta_def metaVisitor_def initialItemData_def
      itemContentOf_def getStringFromBoundary_def jsSlice_def clampIndex_def dueItem_def
      mkListItem_def mkNode_def mkValue_def dueEnv_def demoEnv_def dueTitle_def Let_def)


lemma dueItem_data:
  "listItemToItemData dueEnv (''- [ ] '' @ dueTitle) dueItem =
     Inr (sortTags dueEnv (withInlineFields dueEnv
            (visitedItemData dueEnv (''- [ ] '' @ dueTitle) dueItem (6, 16))))"
  by (simp add: listItemToItemData_def dueItem_boundary)

text \<open>
  C6 as stated fails on a title that begins with a line break: the index of the first line
  break is 0, the test \<open>firstLineEnd <= 0\<close> holds, and a reserved field after the line break
  is retained.
\<close>

theorem listItemToItemData_inlineMetadata_counterexample:
  "map_sum id (inlineMetadata \<circ> metadata) (listItemToItemData dueEnv (''- [ ] '' @ dueTitle) dueItem) =
     Inr (Some [dueField]) \<and>
   title (visitedItemData dueEnv (''- [ ] '' @ dueTitle) dueItem (6, 16)) = dueTitle \<and>
   extractInlineFields dueEnv dueTitle True = [dueField] \<and>
   taskFieldsHas dueEnv (fkey dueField) \<and>
   CHR 0x0A \<in> set dueTitle \<and>
   \<not> fend dueField < indexOfChar (CHR 0x0A) dueTitle"
proof -
  have ex: "extractInlineFields dueEnv dueTitle True = [dueField]"
    by (simp add: dueEnv_def)
  have task: "taskFieldsHas dueEnv (fkey dueField)"
    by (simp add: dueEnv_def demoEnv_def dueField_def)
  have idx: "indexOfChar (CHR 0x0A) dueTitle = 0"
    by (simp add: dueTitle_def)
  have "inlineMetadata (metadata (withInlineFields dueEnv
            (visitedItemData dueEnv (''- [ ] '' @ dueTitle) dueItem (6, 16)))) = Some [dueField]"
    unfolding withInlineFields_inline dueItem_title ex idx using task by simp
  then have "map_sum id (inlineMetadata \<circ> metadata)
       (listItemToItemData dueEnv (''- [ ] '' @ dueTitle) dueItem) = Inr (Some [dueField])"
    unfolding dueItem_data by (simp add: sortTags_inline)
  moreover have "CHR 0x0A \<in> set dueTitle" by (simp add: dueTitle_def)
  moreover have "\<not> fend dueField < indexOfChar (CHR 0x0A) dueTitle"
    unfolding idx by (simp add: dueField_def)
  ultimately show ?thesis using ex task dueItem_title by simp
qed

lemma fieldsItem_boundary: "itemBoundary fieldsEnv fieldsItem = Inr (6, 38)"
  by (simp add: itemBoundary_def fieldsItem_def mkListItem_def mkNode_def mkValue_def fieldsEnv_def
      demoEnv_def demoBoundary_def)

lemma fieldsItem_title:
  "title (visitedItemData fieldsEnv (''- [ ] '' @ fieldsTitle) fieldsItem (6, 38)) = fieldsTitle"
  by (simp add: visitedItemData_def visitMeta_def metaVisitor_def initialItemData_def
      itemContentOf_def getStringFromBoundary_def jsSlice_def clampIndex_def fieldsItem_def
      mkListItem_def mkNode_def mkValue_def fieldsEnv_def demoEnv_def fieldsTitle_def Let_def)

theorem listItemToItemData_inlineMetadata_witness:
  "itemBoundary fieldsEnv fieldsItem = Inr (6, 38) \<and>
   fieldsTitle = title (visitedItemData fieldsEnv (''- [ ] '' @ fieldsTitle) fieldsItem (6, 38)) \<and>
   (\<exists>d. listItemToItemData fieldsEnv (''- [ ] '' @ fieldsTitle) fieldsItem = Inr d \<and>
        inlineMetadata (metadata d) = Some [fieldsFound ! 0, fieldsFound ! 2])"
proof -
  obtain d where d: "listItemToItemData fieldsEnv (''- [ ] '' @ fieldsTitle) fieldsItem = Inr d"
    by (simp add: listItemToItemData_def fieldsItem_boundary)
  have ttl: "fieldsTitle = title (visitedItemData fieldsEnv (''- [ ] '' @ fieldsTitle) fieldsItem (6, 38))"
    by (rule fieldsItem_title[symmetric])
  have ex: "extractInlineFields fieldsEnv fieldsTitle True = fieldsFound"
    by (simp add: fieldsEnv_def)
  have idx: "indexOfChar (CHR 0x0A) fieldsTitle = 12"
    by (simp add: fieldsTitle_def)
  have "inlineMetadata (metadata d) = Some [fieldsFound ! 0, fieldsFound ! 2]"
    unfolding listItemToItemData_inlineMetadata[OF d fieldsItem_boundary ttl] ex idx
    by (simp add: fieldsFound_def fieldsEnv_def demoEnv_def fieldsTitle_def newline_def)
  with d ttl fieldsItem_boundary show ?thesis by simp
qed

subsection \<open>Adding items\<close>

lemma callItems_addItems:
  "callItems (addItems e m path l items) =
     map (markItem e (truthyBool (shouldMarkItemsComplete (laneData l)))) items"
  by (simp add: addItems_def Let_def)

text \<open>
  C9. Every item that \<open>addItems\<close> hands to the board modifier has its checked flag set to
  the lane's \<open>shouldMarkItemsComplete\<close> value and its check character set to the configured
  done character when that value is true and to a single space otherwise, whatever the
  item carried before; the items keep their order, identifiers and raw titles.
\<close>

theorem addItems_marks_items:
  "map (checked \<circ> itemData) (callItems (addItems e m path l items)) =
     replicate (length items) (Some (truthyBool (shouldMarkItemsComplete (laneData l)))) \<and>
   map (checkChar \<circ> itemData) (callItems (addItems e m path l items)) =
     replicate (length items)
       (if truthyBool (shouldMarkItemsComplete (laneData l)) then getTaskStatusDone e else '' '') \<and>
   map itemId (callItems (addItems e m path l items)) = map itemId items \<and>
   map (titleRaw \<circ> itemData) (callItems (addItems e m path l items)) = map (titleRaw \<circ> itemData) items"
  unfolding callItems_addItems
  by (induction items) (simp_all add: markItem_def)

subsection \<open>Serialisation\<close>

lemma pushChildren_map: "pushChildren e cs lines = lines @ map (childToMd e) cs"
proof (induction cs arbitrary: lines)
  case Nil
  then show ?case by simp
next
  case (Cons c cs)
  then show ?case by (cases c) (simp_all add: childToMd_def)
qed

lemma foldl_append_concat: "foldl (\<lambda>md l. md @ f l) acc ls = acc @ concat (map f ls)"
  by (induction ls arbitrary: acc) simp_all

lemma laneToMd_lines:
  "laneToMd e l =
     joinWith newline
       ([replicate (nat (max 1 (getLaneLevel l + 1))) (CHR ''#'') @ '' '' @
           replaceNewLines e (laneTitleWithMaxItems e (laneTitle (laneData l)) (maxItems (laneData l))),
         []] @
        (if truthyBool (shouldMarkItemsComplete (laneData l)) then [completeString e] else []) @
        map (childToMd e) (laneChildren l) @
        [[], [], []])"
  by (cases l) (simp add: Let_def pushChildren_map getLaneLevel_def)

lemma markerCount_prefix: "markerCount (replicate n (CHR ''#'') @ CHR '' '' # rest) = n"
  by (induction n) (simp_all add: markerCount_def)

lemma markerCount_laneToMd: "markerCount (laneToMd e l) = nat (max 1 (getLaneLevel l + 1))"
  unfolding laneToMd_lines by (simp add: markerCount_prefix)

lemma boardToMd_parts:
  "boardToMd e b =
     joinWith newline [''---'', [], stringifyYaml e (frontmatter (boardData b)), ''---'', [], []] @
     concat (map (laneToMd e) (boardChildren b)) @
     archiveToMd e (archive (boardData b)) @
     settingsToCodeblock e b"
  by (simp add: boardToMd_def Let_def foldl_append_concat)

text \<open>
  C7. \<open>laneToMd\<close> joins, with line breaks: the heading line, whose marker prefix is
  \<open>max 1 (level + 1)\<close> characters \<open>#\<close> followed by a space, where the level is the one that
  \<open>getLaneLevel\<close> reads (\<open>lane.data.level || 1\<close>); an empty line; the complete marker exactly
  when \<open>shouldMarkItemsComplete\<close> is set; one entry for each child in order, an item through
  \<open>itemToMd\<close> and a nested lane through \<open>laneToMd\<close>; and three empty lines. The heading
  line starts with exactly that number of markers. \<open>boardToMd\<close> is the front matter block,
  then the top-level lanes in order, then the archive block, then the settings block.
\<close>

theorem laneToMd_boardToMd_layout:
  "laneToMd e l =
     joinWith newline
       ([replicate (nat (max 1 (getLaneLevel l + 1))) (CHR ''#'') @ '' '' @
           replaceNewLines e (laneTitleWithMaxItems e (laneTitle (laneData l)) (maxItems (laneData l))),
         []] @
        (if truthyBool (shouldMarkItemsComplete (laneData l)) then [completeString e] else []) @
        map (childToMd e) (laneChildren l) @
        [[], [], []]) \<and>
   markerCount (laneToMd e l) = nat (max 1 (getLaneLevel l + 1)) \<and>
   (level (laneData l) = Some d \<and> d \<noteq> 0 \<longrightarrow> markerCount (laneToMd e l) = nat (max 1 (d + 1))) \<and>
   boardToMd e b =
     joinWith newline [''---'', [], stringifyYaml e (frontmatter (boardData b)), ''---'', [], []] @
     concat (map (laneToMd e) (boardChildren b)) @
     archiveToMd e (archive (boardData b)) @
     settingsToCodeblock e b"
proof -
  have "level (laneData l) = Some d \<and> d \<noteq> 0 \<longrightarrow> markerCount (laneToMd e l) = nat (max 1 (d + 1))"
    by (simp add: markerCount_laneToMd getLaneLevel_def orOne_def)
  with laneToMd_lines[of e l] markerCount_laneToMd[of e l] boardToMd_parts[of e b]
  show ?thesis by (intro conjI)
qed

theorem laneToMd_boardToMd_layout_witness:
  "level (laneData doneLane) = Some 2 \<and> (2::int) \<noteq> 0 \<and>
   markerCount (laneToMd demoEnv doneLane) = 3 \<and>
   laneToMd demoEnv doneLane =
     ''### Done'' @ newline @ newline @ ''**Complete**'' @ newline @ ''- [x] a'' @ newline @
     ''#### Sub'' @ newline @ newline @ newline @ newline @ newline @ newline @ newline"
proof -
  have lv: "level (laneData doneLane) = Some 2 \<and> (2::int) \<noteq> 0"
    by (simp add: doneLane_def)
  from laneToMd_boardToMd_layout[of demoEnv doneLane 2 undefined, THEN conjunct2, THEN conjunct2, THEN conjunct1]
    lv have "markerCount (laneToMd demoEnv doneLane) = 3" by simp
  moreover have "laneToMd demoEnv doneLane =
     ''### Done'' @ newline @ newline @ ''**Complete**'' @ newline @ ''- [x] a'' @ newline @
     ''#### Sub'' @ newline @ newline @ newline @ newline @ newline @ newline @ newline"
    unfolding laneToMd_boardToMd_layout[of demoEnv doneLane 2 undefined, THEN conjunct1]
    by (simp add: doneLane_def getLaneLevel_def orOne_def truthyBool_def childToMd_def itemToMd_def
        demoEnv_def newline_def eval_nat_numeral Let_def)
  ultimately show ?thesis using lv by (intro conjI) simp_all
qed

subsection \<open>The lane stack\<close>

lemma popLanes_subset: "set (popLanes lvl stack) \<subseteq> set stack"
  by (induction stack) auto

lemma popLanes_top: "popLanes lvl stack = entry # rest \<Longrightarrow> snd entry < lvl"
  by (induction stack) (auto split: if_splits)

subsection \<open>Updates of the store\<close>

lemma laneRefs_append: "laneRefs (cs @ ds) = laneRefs cs @ laneRefs ds"
  by (induction cs rule: laneRefs.induct) simp_all

lemma laneRefs_items: "laneRefs (map ItemChild its) = []"
  by (induction its) simp_all

lemma allRefs_append: "allRefs (h @ k) = allRefs h @ allRefs k"
  by (simp add: allRefs_def)

lemma mset_allRefs_update:
  assumes "p < length h"
  shows "mset (allRefs (h[p := pushChild (LaneChild n) (h ! p)])) = add_mset n (mset (allRefs h))"
proof -
  have h: "h = take p h @ (h ! p) # drop (Suc p) h"
    using assms by (simp add: id_take_nth_drop)
  have u: "h[p := pushChild (LaneChild n) (h ! p)] =
           take p h @ pushChild (LaneChild n) (h ! p) # drop (Suc p) h"
    using assms by (simp add: upd_conv_take_nth_drop)
  have "mset (allRefs (take p h @ pushChild (LaneChild n) (h ! p) # drop (Suc p) h)) =
        add_mset n (mset (allRefs (take p h @ (h ! p) # drop (Suc p) h)))"
    by (simp add: allRefs_def pushChild_def laneRefs_append)
  with h u show ?thesis by simp
qed


subsection \<open>placeLane keeps the invariant\<close>

lemma placeLane_root:
  assumes "popLanes lvl (laneStack st) = []"
  shows "placeLane obj lvl st =
     st\<lparr>heap := heap st @ [obj], lanes := lanes st @ [length (heap st)],
        laneStack := [(length (heap st), lvl)]\<rparr>"
  using assms by (simp add: placeLane_def Let_def)

lemma placeLane_nested:
  assumes "popLanes lvl (laneStack st) = entry # rest"
  shows "placeLane obj lvl st =
     st\<lparr>heap := (heap st)[fst entry := pushChild (LaneChild (length (heap st))) (heap st ! fst entry)] @
                   [obj\<lparr>objData := (objData obj)\<lparr>parentId := Some (objId (heap st ! fst entry))\<rparr>\<rparr>],
        laneStack := (length (heap st), lvl) # entry # rest\<rparr>"
  using assms by (simp add: placeLane_def Let_def)

lemma placeLane_stateOk_root:
  assumes ok: "stateOk st"
    and lv: "level (objData obj) = Some lvl"
    and par: "parentId (objData obj) = None"
    and nolanes: "laneRefs (objChildren obj) = []"
    and pop: "popLanes lvl (laneStack st) = []"
  shows "stateOk (placeLane obj lvl st)"
proof -
  let ?n = "length (heap st)"
  let ?st = "placeLane obj lvl st"
  have heap': "heap ?st = heap st @ [obj]" and lanes': "lanes ?st = lanes st @ [?n]"
    and stack': "laneStack ?st = [(?n, lvl)]"
    unfolding placeLane_root[OF pop] by simp_all
  from ok have roots: "rootsOk st" and refs: "refsOk (heap st)" and once: "onceOk st"
    by (simp_all add: stateOk_def)
  have 1: "stackOk ?st"
    unfolding stackOk_def heap' stack' using lv by simp
  have 2: "rootsOk ?st"
    unfolding rootsOk_def heap' lanes' using roots par
    by (auto simp: rootsOk_def nth_append)
  have 3: "refsOk (heap ?st)"
    unfolding heap' refsOk_def
  proof (intro allI impI ballI)
    fix a r assume a: "a < length (heap st @ [obj])"
      and r: "r \<in> set (laneRefs (objChildren ((heap st @ [obj]) ! a)))"
    show "a < r \<and> r < length (heap st @ [obj]) \<and>
       levelAbove (level (objData ((heap st @ [obj]) ! r))) (level (objData ((heap st @ [obj]) ! a))) \<and>
       parentId (objData ((heap st @ [obj]) ! r)) = Some (objId ((heap st @ [obj]) ! a))"
    proof (cases "a < ?n")
      case True
      with r have r': "r \<in> set (laneRefs (objChildren (heap st ! a)))" by (simp add: nth_append)
      with refs True have "a < r \<and> r < ?n \<and>
         levelAbove (level (objData (heap st ! r))) (level (objData (heap st ! a))) \<and>
         parentId (objData (heap st ! r)) = Some (objId (heap st ! a))"
        unfolding refsOk_def by blast
      with True show ?thesis by (simp add: nth_append)
    next
      case False
      with a have "a = ?n" by simp
      with r nolanes show ?thesis by simp
    qed
  qed
  have 4: "onceOk ?st"
    unfolding onceOk_def heap' lanes' using once nolanes
    by (simp add: onceOk_def allRefs_def)
  from 1 2 3 4 show ?thesis by (simp add: stateOk_def)
qed


lemma placeLane_stateOk_nested:
  assumes ok: "stateOk st"
    and lv: "level (objData obj) = Some lvl"
    and nolanes: "laneRefs (objChildren obj) = []"
    and pop: "popLanes lvl (laneStack st) = entry # rest"
  shows "stateOk (placeLane obj lvl st)"
proof -
  let ?n = "length (heap st)"
  let ?p = "fst entry"
  let ?parent = "heap st ! ?p"
  let ?obj = "obj\<lparr>objData := (objData obj)\<lparr>parentId := Some (objId ?parent)\<rparr>\<rparr>"
  let ?h = "(heap st)[?p := pushChild (LaneChild ?n) ?parent] @ [?obj]"
  let ?st = "placeLane obj lvl st"
  have heap': "heap ?st = ?h" and lanes': "lanes ?st = lanes st"
    and stack': "laneStack ?st = (?n, lvl) # entry # rest"
    unfolding placeLane_nested[OF pop] by simp_all
  from ok have stack: "stackOk st" and roots: "rootsOk st" and refs: "refsOk (heap st)"
    and once: "onceOk st"
    by (simp_all add: stateOk_def)
  have sub: "set (entry # rest) \<subseteq> set (laneStack st)"
    using popLanes_subset[of lvl "laneStack st"] pop by simp
  then have "entry \<in> set (laneStack st)" by simp
  with stack have p: "?p < ?n" and plevel: "level (objData ?parent) = Some (snd entry)"
    unfolding stackOk_def by blast+
  have below: "snd entry < lvl" using pop by (rule popLanes_top)
  have len: "length ?h = Suc ?n" by simp
  have old: "\<And>a. a < ?n \<Longrightarrow> objData (?h ! a) = objData (heap st ! a) \<and> objId (?h ! a) = objId (heap st ! a)"
    using p by (simp add: nth_append nth_list_update pushChild_def)
  have oldrefs: "\<And>a. a < ?n \<Longrightarrow> laneRefs (objChildren (?h ! a)) =
      (if a = ?p then laneRefs (objChildren (heap st ! a)) @ [?n] else laneRefs (objChildren (heap st ! a)))"
    using p by (simp add: nth_append nth_list_update pushChild_def laneRefs_append)
  have new: "?h ! ?n = ?obj" by (simp add: nth_append)
  have 1: "stackOk ?st"
    unfolding stackOk_def heap' stack'
  proof
    fix en assume "en \<in> set ((?n, lvl) # entry # rest)"
    then consider "en = (?n, lvl)" | "en \<in> set (laneStack st)" using sub by auto
    then show "fst en < length ?h \<and> level (objData (?h ! fst en)) = Some (snd en)"
    proof cases
      case 1
      then show ?thesis using new lv len by simp
    next
      case 2
      with stack have "fst en < ?n" and "level (objData (heap st ! fst en)) = Some (snd en)"
        unfolding stackOk_def by blast+
      then show ?thesis using old[of "fst en"] len by simp
    qed
  qed
  have 2: "rootsOk ?st"
    unfolding rootsOk_def heap' lanes'
  proof
    fix a assume "a \<in> set (lanes st)"
    with roots have "a < ?n" and "parentId (objData (heap st ! a)) = None"
      unfolding rootsOk_def by blast+
    then show "a < length ?h \<and> parentId (objData (?h ! a)) = None"
      using old[of a] len by simp
  qed
  have 3: "refsOk (heap ?st)"
    unfolding heap' refsOk_def
  proof (intro allI impI ballI)
    fix a r assume a: "a < length ?h" and r: "r \<in> set (laneRefs (objChildren (?h ! a)))"
    show "a < r \<and> r < length ?h \<and>
       levelAbove (level (objData (?h ! r))) (level (objData (?h ! a))) \<and>
       parentId (objData (?h ! r)) = Some (objId (?h ! a))"
    proof (cases "a < ?n")
      case False
      with a len have "a = ?n" by simp
      with r new nolanes show ?thesis by simp
    next
      case True
      show ?thesis
      proof (cases "r = ?n")
        case rn: True
        have "r \<notin> set (laneRefs (objChildren (heap st ! a)))"
        proof
          assume "r \<in> set (laneRefs (objChildren (heap st ! a)))"
          with refs True have "r < ?n" unfolding refsOk_def by blast
          with rn show False by simp
        qed
        with r oldrefs[OF True] have ap: "a = ?p" by (auto split: if_splits)
        have "levelAbove (level (objData ?obj)) (level (objData ?parent))"
          using lv plevel below by (simp add: levelAbove_def)
        then show ?thesis using rn ap True new old[OF True] len by simp
      next
        case rold: False
        with r oldrefs[OF True] have "r \<in> set (laneRefs (objChildren (heap st ! a)))"
          by (auto split: if_splits)
        with refs True have *: "a < r" "r < ?n"
           "levelAbove (level (objData (heap st ! r))) (level (objData (heap st ! a)))"
           "parentId (objData (heap st ! r)) = Some (objId (heap st ! a))"
          unfolding refsOk_def by blast+
        then show ?thesis using old[OF True] old[OF *(2)] len by simp
      qed
    qed
  qed
  have "mset (allRefs ?h) = add_mset ?n (mset (allRefs (heap st)))"
    using nolanes mset_allRefs_update[OF p, of ?n]
    by (simp add: allRefs_append) (simp add: allRefs_def)
  then have 4: "onceOk ?st"
    unfolding onceOk_def heap' lanes' using once by (simp add: onceOk_def)
  from 1 2 3 4 show ?thesis by (simp add: stateOk_def)
qed

lemma placeLane_stateOk:
  assumes "stateOk st" and "level (objData obj) = Some lvl"
    and "parentId (objData obj) = None" and "laneRefs (objChildren obj) = []"
  shows "stateOk (placeLane obj lvl st)"
proof (cases "popLanes lvl (laneStack st)")
  case Nil
  with assms show ?thesis by (rule placeLane_stateOk_root)
next
  case (Cons entry rest)
  with assms(1,2,4) show ?thesis by (rule placeLane_stateOk_nested)
qed


subsection \<open>The invariant holds after the loop\<close>

lemma stateOk_fields:
  "stateOk (st\<lparr>idCount := k\<rparr>) = stateOk st"
  "stateOk (st\<lparr>archiveItems := its\<rparr>) = stateOk st"
  by (simp_all add: stateOk_def stackOk_def rootsOk_def onceOk_def)

lemma newLaneData_fields:
  "level (newLaneData e ttl mark lvl) = Some lvl"
  "parentId (newLaneData e ttl mark lvl) = None"
  "laneTitle (newLaneData e ttl mark lvl) = fst (parseLaneTitle e ttl)"
  "shouldMarkItemsComplete (newLaneData e ttl mark lvl) = Some mark"
  by (simp_all add: newLaneData_def)

lemma processHeading_stateOk:
  assumes "stateOk st" and "processHeading e md children index child st = Inr st'"
  shows "stateOk st'"
proof (cases "fst (getNextOfType children index ''list'' (listScanCallback e) False)")
  case None
  with assms(2) have "st' = placeLane
       \<lparr> objId = instanceIds e (idCount st),
         objData = newLaneData e (getStringFromBoundary md (getNodeContentBoundary e child))
                     (snd (getNextOfType children index ''list'' (listScanCallback e) False))
                     (orOne (ndepth child)),
         objChildren = [] \<rparr>
       (orOne (ndepth child)) (st\<lparr>idCount := Suc (idCount st)\<rparr>)"
    by (simp add: processHeading_def Let_def)
  moreover have "stateOk (st\<lparr>idCount := Suc (idCount st)\<rparr>)"
    using assms(1) by (simp add: stateOk_fields)
  ultimately show ?thesis
    by (simp add: placeLane_stateOk newLaneData_fields)
next
  case (Some lst)
  show ?thesis
  proof (cases "isArchiveLane e child children index")
    case True
    with Some assms(2) obtain items where "st' = st\<lparr>archiveItems := archiveItems st @ items,
                            idCount := idCount st + length items\<rparr>"
      by (auto simp: processHeading_def Let_def split: sum.splits)
    with assms(1) show ?thesis by (simp add: stateOk_fields)
  next
    case False
    with Some assms(2) obtain items where "st' = placeLane
       \<lparr> objId = instanceIds e (idCount st),
         objData = newLaneData e (getStringFromBoundary md (getNodeContentBoundary e child))
                     (snd (getNextOfType children index ''list'' (listScanCallback e) False))
                     (orOne (ndepth child)),
         objChildren = map ItemChild items \<rparr>
       (orOne (ndepth child)) (st\<lparr>idCount := Suc (idCount st) + length items\<rparr>)"
      by (auto simp: processHeading_def Let_def split: sum.splits)
    moreover have "stateOk (st\<lparr>idCount := Suc (idCount st) + length items\<rparr>)"
      using assms(1) by (simp add: stateOk_fields)
    ultimately show ?thesis
      by (simp add: placeLane_stateOk newLaneData_fields laneRefs_items)
  qed
qed

lemma processChild_stateOk:
  assumes "stateOk st" and "processChild e md children ic st = Inr st'"
  shows "stateOk st'"
  using assms processHeading_stateOk[of st e md children "fst ic" "snd ic" st']
  by (auto simp: processChild_def split: if_splits)

lemma forEachE_invariant:
  assumes step: "\<And>x s s'. P s \<Longrightarrow> f x s = Inr s' \<Longrightarrow> P s'"
  shows "P s \<Longrightarrow> forEachE f xs s = Inr s' \<Longrightarrow> P s'"
proof (induction xs arbitrary: s)
  case Nil
  then show ?case by simp
next
  case (Cons x xs)
  from Cons.prems(2) obtain s1 where 1: "f x s = Inr s1" and 2: "forEachE f xs s1 = Inr s'"
    by (cases "f x s") simp_all
  from Cons.prems(1) 1 have "P s1" by (rule step)
  then show ?case using 2 by (rule Cons.IH)
qed

lemma initialState_stateOk: "stateOk initialState"
  by (simp add: stateOk_def stackOk_def rootsOk_def refsOk_def onceOk_def initialState_def allRefs_def)

lemma parseBlocks_stateOk:
  assumes "parseBlocks e md children = Inr st"
  shows "stateOk st"
proof -
  have "forEachE (processChild e md children) (enumerate 0 children) initialState = Inr st"
    using assms by (simp add: parseBlocks_def)
  with initialState_stateOk show ?thesis
    by (rule forEachE_invariant[where P = stateOk, rotated]) (rule processChild_stateOk)
qed


subsection \<open>Reading the trees\<close>

lemma length_readHeap: "length (readHeap objs base) = length objs"
  by (induction objs arbitrary: base) (simp_all add: Let_def)

lemma readHeap_shape:
  "i < length objs \<Longrightarrow>
     laneId (readHeap objs base ! i) = objId (objs ! i) \<and>
     laneData (readHeap objs base ! i) = objData (objs ! i)"
proof (induction objs arbitrary: base i)
  case Nil
  then show ?case by simp
next
  case (Cons obj rest)
  then show ?case by (cases i) (simp_all add: Let_def)
qed

lemma readChild_cong:
  "(\<And>r. r \<in> set (laneRefs cs) \<Longrightarrow> f r = g r) \<Longrightarrow> map (readChild f) cs = map (readChild g) cs"
  by (induction cs rule: laneRefs.induct) (simp_all add: readChild_def)

lemma readHeap_children:
  "i < length objs \<Longrightarrow> (\<And>r. r \<in> set (laneRefs (objChildren (objs ! i))) \<Longrightarrow> base + i < r) \<Longrightarrow>
     laneChildren (readHeap objs base ! i) =
       map (readChild (\<lambda>a. readHeap objs base ! (a - base))) (objChildren (objs ! i))"
proof (induction objs arbitrary: base i)
  case Nil
  then show ?case by simp
next
  case (Cons obj rest)
  show ?case
  proof (cases i)
    case 0
    have "map (readChild (\<lambda>a. readHeap rest (Suc base) ! (a - Suc base))) (objChildren obj) =
          map (readChild (\<lambda>a. readHeap (obj # rest) base ! (a - base))) (objChildren obj)"
    proof (rule readChild_cong)
      fix r assume "r \<in> set (laneRefs (objChildren obj))"
      with Cons.prems(2)[of r] 0 have "base < r" by simp
      then obtain d where "r - base = Suc d" and "r - Suc base = d"
        by (cases "r - base") auto
      then show "readHeap rest (Suc base) ! (r - Suc base) = readHeap (obj # rest) base ! (r - base)"
        by (simp add: Let_def)
    qed
    with 0 show ?thesis by (simp add: Let_def)
  next
    case (Suc j)
    with Cons.prems(1) have j: "j < length rest" by simp
    have fw: "\<And>r. r \<in> set (laneRefs (objChildren (rest ! j))) \<Longrightarrow> Suc base + j < r"
      using Cons.prems(2) Suc by simp
    have "laneChildren (readHeap rest (Suc base) ! j) =
       map (readChild (\<lambda>a. readHeap rest (Suc base) ! (a - Suc base))) (objChildren (rest ! j))"
      using j fw by (rule Cons.IH)
    also have "\<dots> = map (readChild (\<lambda>a. readHeap (obj # rest) base ! (a - base))) (objChildren (rest ! j))"
    proof (rule readChild_cong)
      fix r assume "r \<in> set (laneRefs (objChildren (rest ! j)))"
      then have "base < r" using fw[of r] by simp
      then obtain d where "r - base = Suc d" and "r - Suc base = d"
        by (cases "r - base") auto
      then show "readHeap rest (Suc base) ! (r - Suc base) = readHeap (obj # rest) base ! (r - base)"
        by (simp add: Let_def)
    qed
    finally show ?thesis using Suc by (simp add: Let_def)
  qed
qed

lemma refsOk_forward:
  "refsOk h \<Longrightarrow> a < length h \<Longrightarrow> r \<in> set (laneRefs (objChildren (h ! a))) \<Longrightarrow> a < r \<and> r < length h"
  unfolding refsOk_def by blast

lemma trees_children:
  assumes "refsOk h" and "a < length h"
  shows "laneChildren (readHeap h 0 ! a) =
           map (readChild (\<lambda>r. readHeap h 0 ! r)) (objChildren (h ! a))"
proof -
  have "laneChildren (readHeap h 0 ! a) =
       map (readChild (\<lambda>r. readHeap h 0 ! (r - 0))) (objChildren (h ! a))"
    using assms(2) refsOk_forward[OF assms] by (intro readHeap_children) simp_all
  then show ?thesis by simp
qed

lemma childLanes_read:
  "childLanes (map (readChild f) cs) = concat (map (\<lambda>r. allLanes (f r)) (laneRefs cs))"
  by (induction cs rule: laneRefs.induct) (simp_all add: readChild_def)

lemma laneChild_read:
  "LaneChild L \<in> set (map (readChild f) cs) \<Longrightarrow> \<exists>r\<in>set (laneRefs cs). L = f r"
  by (induction cs rule: laneRefs.induct) (auto simp: readChild_def)

lemma allLanes_unfold: "allLanes l = l # childLanes (laneChildren l)"
  by (cases l) simp

lemma trees_allLanes:
  assumes "refsOk h" and "a < length h"
  shows "allLanes (readHeap h 0 ! a) =
     readHeap h 0 ! a # concat (map (\<lambda>r. allLanes (readHeap h 0 ! r)) (laneRefs (objChildren (h ! a))))"
  by (subst allLanes_unfold) (simp add: trees_children[OF assms] childLanes_read)

lemma allLanes_are_trees:
  assumes ok: "refsOk h"
  shows "a < length h \<Longrightarrow> set (allLanes (readHeap h 0 ! a)) \<subseteq> {readHeap h 0 ! r | r. r < length h}"
proof (induction "length h - a" arbitrary: a rule: less_induct)
  case less
  have "set (allLanes (readHeap h 0 ! r)) \<subseteq> {readHeap h 0 ! r | r. r < length h}"
    if "r \<in> set (laneRefs (objChildren (h ! a)))" for r
  proof -
    from refsOk_forward[OF ok less.prems that] have "a < r" and r: "r < length h" by simp_all
    then have "length h - r < length h - a" using less.prems by simp
    then show ?thesis using r by (rule less.hyps)
  qed
  then show ?case
    using less.prems by (subst trees_allLanes[OF ok less.prems]) auto
qed


subsection \<open>Hierarchy\<close>

lemma astToUnhydratedBoard_Inr:
  assumes "astToUnhydratedBoard e sett fm root md = Inr b"
  obtains st where "parseBlocks e md (nchildren root) = Inr st" and "b = boardOfState e sett fm st"
  using assms unfolding astToUnhydratedBoard_def
  by (cases "parseBlocks e md (nchildren root)") simp_all

text \<open>
  C4. On every board that \<open>astToUnhydratedBoard\<close> returns, every top-level lane has no
  \<open>parentId\<close>, and for every lane \<open>P\<close> anywhere in the lane tree and every lane \<open>L\<close> among
  the children of \<open>P\<close>, the level of \<open>L\<close> is strictly greater than the level of \<open>P\<close> and the
  \<open>parentId\<close> of \<open>L\<close> is the id of \<open>P\<close>.
\<close>

theorem astToUnhydratedBoard_hierarchy:
  assumes "astToUnhydratedBoard e sett fm root md = Inr b"
  shows "(\<forall>L\<in>set (boardChildren b). parentId (laneData L) = None) \<and>
         (\<forall>P\<in>set (concat (map allLanes (boardChildren b))). \<forall>L. LaneChild L \<in> set (laneChildren P) \<longrightarrow>
              levelAbove (level (laneData L)) (level (laneData P)) \<and>
              parentId (laneData L) = Some (laneId P))"
proof -
  from assms obtain st where st: "parseBlocks e md (nchildren root) = Inr st"
    and b: "b = boardOfState e sett fm st"
    by (rule astToUnhydratedBoard_Inr)
  let ?h = "heap st"
  let ?trees = "readHeap ?h 0"
  from st have "stateOk st" by (rule parseBlocks_stateOk)
  then have roots: "rootsOk st" and refs: "refsOk ?h" by (simp_all add: stateOk_def)
  have kids: "boardChildren b = map (\<lambda>a. ?trees ! a) (lanes st)"
    using b by (simp add: boardOfState_def)
  have top: "\<forall>L\<in>set (boardChildren b). parentId (laneData L) = None"
  proof
    fix L assume "L \<in> set (boardChildren b)"
    then obtain a where a: "a \<in> set (lanes st)" and L: "L = ?trees ! a"
      unfolding kids by auto
    from roots a have "a < length ?h" and "parentId (objData (?h ! a)) = None"
      unfolding rootsOk_def by blast+
    then show "parentId (laneData L) = None" using L readHeap_shape[of a ?h 0] by simp
  qed
  have nested: "\<forall>P\<in>set (concat (map allLanes (boardChildren b))). \<forall>L. LaneChild L \<in> set (laneChildren P) \<longrightarrow>
              levelAbove (level (laneData L)) (level (laneData P)) \<and>
              parentId (laneData L) = Some (laneId P)"
  proof (intro ballI allI impI)
    fix P L assume P: "P \<in> set (concat (map allLanes (boardChildren b)))"
      and L: "LaneChild L \<in> set (laneChildren P)"
    from P obtain a where a: "a \<in> set (lanes st)" and Pa: "P \<in> set (allLanes (?trees ! a))"
      unfolding kids by auto
    from roots a have "a < length ?h" unfolding rootsOk_def by blast
    with Pa allLanes_are_trees[OF refs, of a] obtain r where r: "r < length ?h" and Pr: "P = ?trees ! r"
      by blast
    from L have "LaneChild L \<in> set (map (readChild (\<lambda>c. ?trees ! c)) (objChildren (?h ! r)))"
      unfolding Pr trees_children[OF refs r] .
    then obtain c where c: "c \<in> set (laneRefs (objChildren (?h ! r)))" and Lc: "L = ?trees ! c"
      using laneChild_read by blast
    from refs r c have cn: "c < length ?h"
      and lv: "levelAbove (level (objData (?h ! c))) (level (objData (?h ! r)))"
      and par: "parentId (objData (?h ! c)) = Some (objId (?h ! r))"
      unfolding refsOk_def by blast+
    show "levelAbove (level (laneData L)) (level (laneData P)) \<and>
              parentId (laneData L) = Some (laneId P)"
      using lv par readHeap_shape[OF cn, of 0] readHeap_shape[OF r, of 0] unfolding Lc Pr by simp
  qed
  from top nested show ?thesis by simp
qed

lemmas nodeDefs = mkNode_def mkValue_def mkHeading_def mkListItem_def

lemmas itemDefs = listItemToItemData_def itemBoundary_def sortTags_def withInlineFields_def
  visitedItemData_def visitMeta_def metaVisitor_def initialItemData_def titleSearchOf_def
  searchVisitor_def searchTypes_def itemContentOf_def getStringFromBoundary_def jsSlice_def
  clampIndex_def inFence_def pushTag_def jsSort_def jsStr_def truthyStr_def truthyBool_def
  demoBoundary_def Let_def

lemmas parseDefs = astToUnhydratedBoard_def parseBlocks_def processChild_def processHeading_def
  getNextOfType_def listScanCallback_def isArchiveLane_def getPrevSibling_def itemsOfList_def
  placeLane_def pushChild_def newLaneData_def initialState_def boardOfState_def readChild_def
  jsStartsWith_def orOne_def

lemma nestedDoc_parses: "\<exists>b. astToUnhydratedBoard demoEnv [] [] nestedDoc nestedMd = Inr b"
  by (simp add: nestedDoc_def nestedMd_def demoEnv_def nodeDefs itemDefs parseDefs)

subsection \<open>Every lane object is a lane of the forest, once\<close>

lemma mset_concat_map:
  "mset (concat (map f xs)) = sum_mset (image_mset (\<lambda>x. mset (f x)) (mset xs))"
  by (induction xs) simp_all

lemma allRefs_take_Suc:
  "k < length h \<Longrightarrow> allRefs (take (Suc k) h) = allRefs (take k h) @ laneRefs (objChildren (h ! k))"
  by (simp add: take_Suc_conv_app_nth allRefs_def)

lemma allRefs_forward:
  assumes "refsOk h" and "r \<in> set (allRefs (drop k h))"
  shows "k < r"
proof -
  from assms(2) obtain obj where obj: "obj \<in> set (drop k h)" and r: "r \<in> set (laneRefs (objChildren obj))"
    by (auto simp: allRefs_def)
  from obj obtain i where "i < length (drop k h)" and "obj = drop k h ! i"
    by (auto simp: in_set_conv_nth)
  then have "k + i < length h" and "obj = h ! (k + i)" by simp_all
  with refsOk_forward[OF assms(1), of "k + i" r] r show ?thesis by simp
qed

lemma forest_lanes:
  assumes refs: "refsOk h"
    and once: "mset roots + mset (allRefs h) = mset [0..<length h]"
  shows "mset (concat (map (\<lambda>a. allLanes (readHeap h 0 ! a)) roots)) = mset (readHeap h 0)"
proof -
  let ?n = "length h"
  let ?trees = "readHeap h 0"
  let ?F = "\<lambda>A. sum_mset (image_mset (\<lambda>a. mset (allLanes (?trees ! a))) A)"
  let ?B = "\<lambda>k. mset roots + mset (allRefs (take k h))"
  have len: "length ?trees = ?n" by (rule length_readHeap)
  have step: "?F (filter_mset (\<lambda>r. k \<le> r) (?B k)) = mset (drop k ?trees)"
    if "?F (filter_mset (\<lambda>r. Suc k \<le> r) (?B (Suc k))) = mset (drop (Suc k) ?trees)" and k: "k < ?n"
    for k
  proof -
    let ?refs = "laneRefs (objChildren (h ! k))"
    let ?A = "filter_mset (\<lambda>r. Suc k \<le> r) (?B k)"
    have fw: "\<forall>r\<in>set ?refs. Suc k \<le> r"
    proof
      fix r assume "r \<in> set ?refs"
      with refsOk_forward[OF refs k] have "k < r" by blast
      then show "Suc k \<le> r" by simp
    qed
    have B_Suc: "?B (Suc k) = ?B k + mset ?refs"
      by (simp add: allRefs_take_Suc[OF k])
    have "filter_mset (\<lambda>r. Suc k \<le> r) (mset ?refs) = mset ?refs"
      using fw by (simp add: filter_mset_eq_conv)
    then have A_Suc: "filter_mset (\<lambda>r. Suc k \<le> r) (?B (Suc k)) = ?A + mset ?refs"
      unfolding B_Suc by simp
    have "k \<notin> set (allRefs (drop k h))"
      using allRefs_forward[OF refs, of k k] by auto
    then have "count (mset (allRefs h)) k = count (mset (allRefs (take k h))) k"
      using allRefs_append[of "take k h" "drop k h"] by (simp add: count_mset_0_iff[THEN iffD2] del: count_mset_0_iff)
    moreover have "count (mset roots + mset (allRefs h)) k = 1"
      unfolding once using k by simp
    ultimately have cnt: "count (?B k) k = 1" by simp
    have split: "filter_mset (\<lambda>r. k \<le> r) (?B k) = add_mset k ?A"
    proof (rule multiset_eqI)
      fix x
      show "count (filter_mset (\<lambda>r. k \<le> r) (?B k)) x = count (add_mset k ?A) x"
        using cnt by (cases "x = k") auto
    qed
    have "mset (allLanes (?trees ! k)) = add_mset (?trees ! k) (?F (mset ?refs))"
      by (simp add: trees_allLanes[OF refs k] mset_concat_map)
    then have "?F (add_mset k ?A) = add_mset (?trees ! k) (?F (?A + mset ?refs))"
      by simp
    also have "\<dots> = add_mset (?trees ! k) (mset (drop (Suc k) ?trees))"
      using that(1) unfolding A_Suc by simp
    also have "\<dots> = mset (drop k ?trees)"
      using k len by (simp add: Cons_nth_drop_Suc[symmetric])
    finally show ?thesis unfolding split .
  qed
  have base: "?F (filter_mset (\<lambda>r. ?n \<le> r) (?B ?n)) = mset (drop ?n ?trees)"
  proof -
    have "filter (\<lambda>r. ?n \<le> r) [0..<?n] = []" by (simp add: filter_empty_conv)
    then have "mset (filter (\<lambda>r. ?n \<le> r) [0..<?n]) = {#}" by simp
    then have "filter_mset (\<lambda>r. ?n \<le> r) (mset [0..<?n]) = {#}" by (simp only: mset_filter)
    then show ?thesis using once len by simp
  qed
  have "?F (filter_mset (\<lambda>r. 0 \<le> r) (?B 0)) = mset (drop 0 ?trees)"
  proof (rule inc_induct[where P = "\<lambda>k. ?F (filter_mset (\<lambda>r. k \<le> r) (?B k)) = mset (drop k ?trees)" and j = ?n])
    show "0 \<le> ?n" by simp
    show "?F (filter_mset (\<lambda>r. ?n \<le> r) (?B ?n)) = mset (drop ?n ?trees)" by (rule base)
  next
    fix k assume "0 \<le> k" "k < ?n"
      and "?F (filter_mset (\<lambda>r. Suc k \<le> r) (?B (Suc k))) = mset (drop (Suc k) ?trees)"
    then show "?F (filter_mset (\<lambda>r. k \<le> r) (?B k)) = mset (drop k ?trees)"
      using step by blast
  qed
  then show ?thesis by (simp add: mset_concat_map allRefs_def)
qed

subsection \<open>Archive sections and lane headings\<close>

lemma archiveSection_iff:
  "archiveSection e children ic \<longleftrightarrow>
     ntype (snd ic) = ''heading'' \<and> isArchiveLane e (snd ic) children (fst ic) \<and>
     foundList e children (fst ic) \<noteq> None"
  by (auto simp: archiveSection_def isArchiveLane_def)

lemma map_update_same:
  "f y = f (xs ! p) \<Longrightarrow> map f (xs[p := y]) = map f xs"
proof (cases "p < length xs")
  case True
  assume "f y = f (xs ! p)"
  with True show ?thesis by (simp add: map_update list_update_same_conv)
next
  case False
  then show ?thesis by (simp add: list_update_beyond)
qed

lemma list_all2_enumerate:
  "list_all2 (\<lambda>kl y. P (snd kl) y) (enumerate n xs) ys = list_all2 P xs ys"
proof (induction xs arbitrary: n ys)
  case Nil
  then show ?case by simp
next
  case (Cons x xs)
  then show ?case by (cases ys) simp_all
qed

lemma placeLane_titles:
  "map (laneTitle \<circ> objData) (heap (placeLane obj lvl st)) =
     map (laneTitle \<circ> objData) (heap st) @ [laneTitle (objData obj)]"
proof (cases "popLanes lvl (laneStack st)")
  case Nil
  then show ?thesis by (simp add: placeLane_root)
next
  case (Cons entry rest)
  then show ?thesis by (simp add: placeLane_nested map_update_same pushChild_def)
qed

lemma placeLane_archive: "archiveItems (placeLane obj lvl st) = archiveItems st"
  by (cases "popLanes lvl (laneStack st)") (simp_all add: placeLane_root placeLane_nested)

lemma mapE_Inr:
  "mapE f xs = Inr ys \<Longrightarrow> list_all2 (\<lambda>x y. f x = Inr y) xs ys"
proof (induction xs arbitrary: ys)
  case Nil
  then show ?case by simp
next
  case (Cons x xs)
  from Cons.prems obtain y ys' where "f x = Inr y" and "mapE f xs = Inr ys'" and "ys = y # ys'"
    by (auto split: sum.splits)
  with Cons.IH show ?case by simp
qed

lemma itemsOfList_Inr:
  assumes "itemsOfList e md n lst = Inr items"
  shows "list_all2 (\<lambda>li it. listItemToItemData e md li = Inr (itemData it)) (nchildren lst) items"
proof -
  let ?f = "\<lambda>kl. case listItemToItemData e md (snd kl) of
                  Inl err \<Rightarrow> Inl err
                | Inr d \<Rightarrow> Inr \<lparr> itemId = instanceIds e (fst kl), itemData = d \<rparr>"
  from assms have "list_all2 (\<lambda>kl it. ?f kl = Inr it) (enumerate n (nchildren lst)) items"
    unfolding itemsOfList_def by (rule mapE_Inr)
  then have "list_all2 (\<lambda>kl it. listItemToItemData e md (snd kl) = Inr (itemData it))
               (enumerate n (nchildren lst)) items"
    by (rule list_all2_mono) (auto split: sum.splits)
  then show ?thesis
    using list_all2_enumerate[of "\<lambda>li it. listItemToItemData e md li = Inr (itemData it)"
        n "nchildren lst" items]
    by simp
qed

lemma processChild_titles:
  assumes "processChild e md children ic st = Inr st'"
  shows "map (laneTitle \<circ> objData) (heap st') =
     map (laneTitle \<circ> objData) (heap st) @
       (if laneHeading e children ic then [headingTitle e md (snd ic)] else [])"
proof (cases "ntype (snd ic) = ''heading''")
  case False
  with assms show ?thesis by (simp add: processChild_def laneHeading_def)
next
  case True
  with assms have ph: "processHeading e md children (fst ic) (snd ic) st = Inr st'"
    by (simp add: processChild_def)
  show ?thesis
  proof (cases "archiveSection e children ic")
    case arch: True
    then obtain lst where "foundList e children (fst ic) = Some lst"
      and "isArchiveLane e (snd ic) children (fst ic)"
      by (auto simp: archiveSection_iff)
    with ph obtain items where "st' = st\<lparr>archiveItems := archiveItems st @ items,
                            idCount := idCount st + length items\<rparr>"
      by (auto simp: processHeading_def foundList_def Let_def split: sum.splits)
    with arch show ?thesis by (simp add: laneHeading_def)
  next
    case noarch: False
    with True have lh: "laneHeading e children ic" by (simp add: laneHeading_def)
    from noarch True have "\<not> isArchiveLane e (snd ic) children (fst ic) \<or> foundList e children (fst ic) = None"
      by (simp add: archiveSection_iff)
    with ph obtain obj k where "st' = placeLane obj (orOne (ndepth (snd ic))) (st\<lparr>idCount := k\<rparr>)"
      and "laneTitle (objData obj) = headingTitle e md (snd ic)"
      by (cases "foundList e children (fst ic)")
         (auto simp: processHeading_def foundList_def Let_def headingTitle_def newLaneData_fields
               split: sum.splits if_splits)
    with lh show ?thesis by (simp add: placeLane_titles)
  qed
qed


lemma processChild_archive:
  assumes "processChild e md children ic st = Inr st'"
  shows "\<exists>new. archiveItems st' = archiveItems st @ new \<and>
           list_all2 (\<lambda>li it. listItemToItemData e md li = Inr (itemData it))
             (archiveListItems e children ic) new"
proof (cases "ntype (snd ic) = ''heading''")
  case False
  with assms show ?thesis by (simp add: processChild_def archiveListItems_def archiveSection_def)
next
  case True
  with assms have ph: "processHeading e md children (fst ic) (snd ic) st = Inr st'"
    by (simp add: processChild_def)
  show ?thesis
  proof (cases "archiveSection e children ic")
    case arch: True
    then obtain lst where lst: "foundList e children (fst ic) = Some lst"
      and "isArchiveLane e (snd ic) children (fst ic)"
      by (auto simp: archiveSection_iff)
    with ph obtain items where items: "itemsOfList e md (idCount st) lst = Inr items"
      and "st' = st\<lparr>archiveItems := archiveItems st @ items,
                            idCount := idCount st + length items\<rparr>"
      by (auto simp: processHeading_def foundList_def Let_def split: sum.splits)
    then have "archiveItems st' = archiveItems st @ items" by simp
    moreover have "list_all2 (\<lambda>li it. listItemToItemData e md li = Inr (itemData it))
             (archiveListItems e children ic) items"
      using itemsOfList_Inr[OF items] arch lst by (simp add: archiveListItems_def)
    ultimately show ?thesis by blast
  next
    case noarch: False
    from noarch True have "\<not> isArchiveLane e (snd ic) children (fst ic) \<or> foundList e children (fst ic) = None"
      by (simp add: archiveSection_iff)
    with ph obtain obj k where "st' = placeLane obj (orOne (ndepth (snd ic))) (st\<lparr>idCount := k\<rparr>)"
      by (cases "foundList e children (fst ic)")
         (auto simp: processHeading_def foundList_def Let_def split: sum.splits if_splits)
    then have "archiveItems st' = archiveItems st" by (simp add: placeLane_archive)
    with noarch show ?thesis by (simp add: archiveListItems_def)
  qed
qed

lemma forEachE_accumulate:
  assumes step: "\<And>x s s'. f x s = Inr s' \<Longrightarrow> g s' = g s @ h x"
  shows "forEachE f xs s = Inr s' \<Longrightarrow> g s' = g s @ concat (map h xs)"
proof (induction xs arbitrary: s)
  case Nil
  then show ?case by simp
next
  case (Cons x xs)
  from Cons.prems obtain s1 where 1: "f x s = Inr s1" and 2: "forEachE f xs s1 = Inr s'"
    by (cases "f x s") simp_all
  from step[OF 1] Cons.IH[OF 2] show ?case by simp
qed

lemma forEachE_related:
  assumes step: "\<And>x s s'. f x s = Inr s' \<Longrightarrow> \<exists>new. g s' = g s @ new \<and> list_all2 R (h x) new"
  shows "forEachE f xs s = Inr s' \<Longrightarrow> \<exists>new. g s' = g s @ new \<and> list_all2 R (concat (map h xs)) new"
proof (induction xs arbitrary: s)
  case Nil
  then show ?case by simp
next
  case (Cons x xs)
  from Cons.prems obtain s1 where 1: "f x s = Inr s1" and 2: "forEachE f xs s1 = Inr s'"
    by (cases "f x s") simp_all
  from step[OF 1] obtain n1 where n1: "g s1 = g s @ n1" "list_all2 R (h x) n1" by blast
  from Cons.IH[OF 2] obtain n2 where n2: "g s' = g s1 @ n2" "list_all2 R (concat (map h xs)) n2" by blast
  have "g s' = g s @ (n1 @ n2)" using n1 n2 by simp
  moreover have "list_all2 R (concat (map h (x # xs))) (n1 @ n2)"
    using n1 n2 by (simp add: list_all2_appendI)
  ultimately show ?case by blast
qed

lemma concat_map_if:
  "concat (map (\<lambda>x. if P x then [f x] else []) xs) = map f (filter P xs)"
  by (induction xs) simp_all

lemma readHeap_titles:
  "map (laneTitle \<circ> laneData) (readHeap h base) = map (laneTitle \<circ> objData) h"
  by (induction h arbitrary: base) (simp_all add: Let_def)

text \<open>
  C5, amended. A heading is an archive section when its text is the localised archive
  title, the block directly before it is a thematic break, and the parser finds a list for
  it. On every board that \<open>astToUnhydratedBoard\<close> returns, the archive holds, in order, the
  decomposed items of the lists of the archive sections, and the lanes of the lane tree
  are the headings that are not archive sections: the titles of the lanes are the titles
  of these headings, each as often.
\<close>

theorem astToUnhydratedBoard_archive_sections:
  assumes "astToUnhydratedBoard e sett fm root md = Inr b"
  shows "list_all2 (\<lambda>li it. listItemToItemData e md li = Inr (itemData it))
           (concat (map (archiveListItems e (nchildren root)) (enumerate 0 (nchildren root))))
           (archive (boardData b)) \<and>
         mset (map (laneTitle \<circ> laneData) (concat (map allLanes (boardChildren b)))) =
         mset (map (headingTitle e md \<circ> snd)
                 (filter (laneHeading e (nchildren root)) (enumerate 0 (nchildren root))))"
proof -
  let ?cs = "nchildren root"
  from assms obtain st where st: "parseBlocks e md ?cs = Inr st"
    and b: "b = boardOfState e sett fm st"
    by (rule astToUnhydratedBoard_Inr)
  have run: "forEachE (processChild e md ?cs) (enumerate 0 ?cs) initialState = Inr st"
    using st by (simp add: parseBlocks_def)
  have "\<exists>new. archiveItems st = archiveItems initialState @ new \<and>
          list_all2 (\<lambda>li it. listItemToItemData e md li = Inr (itemData it))
            (concat (map (archiveListItems e ?cs) (enumerate 0 ?cs))) new"
    using run by (rule forEachE_related[rotated]) (rule processChild_archive)
  then have arch: "list_all2 (\<lambda>li it. listItemToItemData e md li = Inr (itemData it))
            (concat (map (archiveListItems e ?cs) (enumerate 0 ?cs))) (archive (boardData b))"
    using b by (simp add: initialState_def boardOfState_def)
  have "map (laneTitle \<circ> objData) (heap st) =
        map (laneTitle \<circ> objData) (heap initialState) @
        concat (map (\<lambda>ic. if laneHeading e ?cs ic then [headingTitle e md (snd ic)] else [])
                  (enumerate 0 ?cs))"
    using run by (rule forEachE_accumulate[rotated]) (rule processChild_titles)
  also have "concat (map (\<lambda>ic. if laneHeading e ?cs ic then [headingTitle e md (snd ic)] else [])
                  (enumerate 0 ?cs)) =
             map (\<lambda>ic. headingTitle e md (snd ic)) (filter (laneHeading e ?cs) (enumerate 0 ?cs))"
    by (rule concat_map_if)
  finally have titles: "map (laneTitle \<circ> objData) (heap st) =
        map (headingTitle e md \<circ> snd) (filter (laneHeading e ?cs) (enumerate 0 ?cs))"
    by (simp add: initialState_def comp_def)
  from st have "stateOk st" by (rule parseBlocks_stateOk)
  then have refs: "refsOk (heap st)" and once: "onceOk st" by (simp_all add: stateOk_def)
  have "boardChildren b = map (\<lambda>a. readHeap (heap st) 0 ! a) (lanes st)"
    using b by (simp add: boardOfState_def)
  then have "concat (map allLanes (boardChildren b)) =
             concat (map (\<lambda>a. allLanes (readHeap (heap st) 0 ! a)) (lanes st))"
    by (simp add: comp_def)
  then have "mset (concat (map allLanes (boardChildren b))) = mset (readHeap (heap st) 0)"
    using forest_lanes[OF refs, of "lanes st"] once by (simp add: onceOk_def)
  then have "mset (map (laneTitle \<circ> laneData) (concat (map allLanes (boardChildren b)))) =
             mset (map (laneTitle \<circ> laneData) (readHeap (heap st) 0))"
    by (simp only: mset_map)
  with titles arch show ?thesis by (simp add: readHeap_titles)
qed

subsection \<open>Parsed documents\<close>

lemmas laneDefs = archiveSection_def archiveListItems_def laneHeading_def headingTitle_def
  foundList_def

theorem astToUnhydratedBoard_hierarchy_witness:
  "\<exists>b. astToUnhydratedBoard demoEnv [] [] nestedDoc nestedMd = Inr b \<and>
       map (laneTitle \<circ> laneData) (concat (map allLanes (boardChildren b))) = [''A'', ''B'', ''C''] \<and>
       (\<forall>L\<in>set (boardChildren b). parentId (laneData L) = None) \<and>
       (\<forall>P\<in>set (concat (map allLanes (boardChildren b))). \<forall>L. LaneChild L \<in> set (laneChildren P) \<longrightarrow>
              levelAbove (level (laneData L)) (level (laneData P)) \<and>
              parentId (laneData L) = Some (laneId P))"
proof -
  have "\<exists>b. astToUnhydratedBoard demoEnv [] [] nestedDoc nestedMd = Inr b \<and>
       map (laneTitle \<circ> laneData) (concat (map allLanes (boardChildren b))) = [''A'', ''B'', ''C'']"
    by (simp add: nestedDoc_def nestedMd_def demoEnv_def nodeDefs itemDefs parseDefs)
  then obtain b where b: "astToUnhydratedBoard demoEnv [] [] nestedDoc nestedMd = Inr b"
    and t: "map (laneTitle \<circ> laneData) (concat (map allLanes (boardChildren b))) = [''A'', ''B'', ''C'']"
    by (elim exE conjE)
  from astToUnhydratedBoard_hierarchy[OF b] b t show ?thesis
    by (intro exI[of _ b]) simp
qed

theorem astToUnhydratedBoard_archive_sections_witness:
  "\<exists>b. astToUnhydratedBoard demoEnv [] [] archiveDoc archiveMd = Inr b \<and>
       map (title \<circ> itemData) (archive (boardData b)) = [''y''] \<and>
       list_all2 (\<lambda>li it. listItemToItemData demoEnv archiveMd li = Inr (itemData it))
           (concat (map (archiveListItems demoEnv (nchildren archiveDoc)) (enumerate 0 (nchildren archiveDoc))))
           (archive (boardData b)) \<and>
       mset (map (laneTitle \<circ> laneData) (concat (map allLanes (boardChildren b)))) = mset [''A'']"
proof -
  have "\<exists>b. astToUnhydratedBoard demoEnv [] [] archiveDoc archiveMd = Inr b \<and>
       map (title \<circ> itemData) (archive (boardData b)) = [''y'']"
    by (simp add: archiveDoc_def archiveMd_def demoEnv_def nodeDefs itemDefs parseDefs)
  then obtain b where b: "astToUnhydratedBoard demoEnv [] [] archiveDoc archiveMd = Inr b"
    and t: "map (title \<circ> itemData) (archive (boardData b)) = [''y'']"
    by (elim exE conjE)
  have h: "map (headingTitle demoEnv archiveMd \<circ> snd)
                 (filter (laneHeading demoEnv (nchildren archiveDoc)) (enumerate 0 (nchildren archiveDoc))) = [''A'']"
    by (simp add: archiveDoc_def archiveMd_def demoEnv_def nodeDefs itemDefs parseDefs laneDefs)
  from astToUnhydratedBoard_archive_sections[OF b] b t show ?thesis
    unfolding h by (intro exI[of _ b]) simp
qed

text \<open>
  C5 as stated fails when no list follows: the heading with the archive title after a
  thematic break becomes a lane of the board.
\<close>

theorem astToUnhydratedBoard_archive_counterexample:
  "isArchiveLane demoEnv (nchildren loneArchiveDoc ! 1) (nchildren loneArchiveDoc) 1 \<and>
   map_sum id (map (laneTitle \<circ> laneData) \<circ> boardChildren)
     (astToUnhydratedBoard demoEnv [] [] loneArchiveDoc loneArchiveMd) = Inr [''Archive'']"
  by (simp add: loneArchiveDoc_def loneArchiveMd_def demoEnv_def nodeDefs itemDefs parseDefs)

text \<open>
  C1 on the document \<^verbatim>\<open>## A\<close>: the parsed lane has level 2, \<open>boardToMd\<close> writes it with three
  heading markers, and parsing the syntax tree of that text gives a lane of level 3.
\<close>

theorem boardToMd_roundtrip_level:
  "map_sum id (map (level \<circ> laneData) \<circ> boardChildren)
     (astToUnhydratedBoard demoEnv [] [] headingDoc ''## A'') = Inr [Some 2] \<and>
   map_sum id (boardToMd demoEnv)
     (astToUnhydratedBoard demoEnv [] [] headingDoc ''## A'') = Inr rewrittenMd \<and>
   map_sum id (map (level \<circ> laneData) \<circ> boardChildren)
     (astToUnhydratedBoard demoEnv [] [] rewrittenDoc rewrittenMd) = Inr [Some 3]"
  by (simp add: headingDoc_def rewrittenDoc_def rewrittenMd_def demoEnv_def nodeDefs itemDefs parseDefs
      boardToMd_def archiveToMd_def newline_def eval_nat_numeral)

subsection \<open>Bulk reparse\<close>

lemma mapE_cases: "(\<exists>err. mapE f xs = Inl err) \<or> (\<exists>ys. mapE f xs = Inr ys)"
  by (cases "mapE f xs") auto








lemmas reparseDefs = reparseBoard_def reparseLane_def reparseChild_def updateItemContent_def
  firstListItem_def demoParseFragment_def

lemmas boardDefs = brokenBoard_def nestedBoard_def mixedBoard_def boardOf_def plainLaneData_def
  staleItem_def emptyItem_def plainItem_def


lemma staleItem_reparsed:
  "map_sum id (title \<circ> itemData) (updateItemContent demoEnv staleItem (titleRaw (itemData staleItem))) = Inr ''a''"
  by (simp add: boardDefs reparseDefs demoEnv_def nodeDefs itemDefs)



lemma reparseLane_Inr:
  assumes "reparseLane e l = Inr l'"
  shows "laneId l' = laneId l \<and> laneData l' = laneData l \<and>
         list_all2 (reparsedChild e) (laneChildren l) (laneChildren l')"
proof -
  from assms obtain cs where cs: "mapE (reparseChild e) (laneChildren l) = Inr cs"
    and l': "l' = Lane (laneId l) (laneData l) cs"
    by (cases "mapE (reparseChild e) (laneChildren l)") (simp_all add: reparseLane_def)
  from cs have "list_all2 (\<lambda>c c'. reparseChild e c = Inr c') (laneChildren l) cs"
    by (rule mapE_Inr)
  then have "list_all2 (reparsedChild e) (laneChildren l) cs"
  proof (rule list_all2_mono)
    fix c c' assume "reparseChild e c = Inr c'"
    then show "reparsedChild e c c'"
      by (cases c) (auto simp: reparseChild_def split: sum.splits)
  qed
  with l' show ?thesis by simp
qed

text \<open>
  C3, amended. When \<open>reparseBoard\<close> returns a board, the board has the same id and data and
  the same top-level lanes, each with its id and data; a child of a top-level lane that is
  an item is replaced by the result of \<open>updateItemContent\<close> on its raw title, and a child
  that is a nested lane is returned as it was, with every item below it.
\<close>

theorem reparseBoard_direct_items:
  assumes "reparseBoard e b = (Inr b', s)"
  shows "boardId b' = boardId b \<and> boardData b' = boardData b \<and>
         list_all2 (\<lambda>l l'. laneId l' = laneId l \<and> laneData l' = laneData l \<and>
                      list_all2 (reparsedChild e) (laneChildren l) (laneChildren l'))
           (boardChildren b) (boardChildren b')"
proof -
  from assms obtain ls where ls: "mapE (reparseLane e) (boardChildren b) = Inr ls"
    and b': "b' = b\<lparr>boardChildren := ls\<rparr>"
    by (cases "mapE (reparseLane e) (boardChildren b)") (simp_all add: reparseBoard_def)
  from ls have "list_all2 (\<lambda>l l'. reparseLane e l = Inr l') (boardChildren b) ls"
    by (rule mapE_Inr)
  then have "list_all2 (\<lambda>l l'. laneId l' = laneId l \<and> laneData l' = laneData l \<and>
                      list_all2 (reparsedChild e) (laneChildren l) (laneChildren l'))
           (boardChildren b) ls"
    by (rule list_all2_mono) (rule reparseLane_Inr)
  with b' show ?thesis by simp
qed

theorem reparseBoard_direct_items_witness:
  "\<exists>b' it'. reparseBoard demoEnv mixedBoard = (Inr b', None) \<and>
        boardChildren b' =
          [Lane ''l1'' (plainLaneData ''A'' 2 None)
             [ItemChild it',
              LaneChild (Lane ''l2'' (plainLaneData ''B'' 3 (Some ''l1'')) [ItemChild staleItem])]] \<and>
        title (itemData it') = ''a'' \<and> title (itemData staleItem) = ''stale'' \<and>
        boardId b' = boardId mixedBoard \<and> boardData b' = boardData mixedBoard \<and>
        list_all2 (\<lambda>l l'. laneId l' = laneId l \<and> laneData l' = laneData l \<and>
                      list_all2 (reparsedChild demoEnv) (laneChildren l) (laneChildren l'))
           (boardChildren mixedBoard) (boardChildren b')"
proof -
  have "\<exists>b' it'. reparseBoard demoEnv mixedBoard = (Inr b', None) \<and>
        boardChildren b' =
          [Lane ''l1'' (plainLaneData ''A'' 2 None)
             [ItemChild it',
              LaneChild (Lane ''l2'' (plainLaneData ''B'' 3 (Some ''l1'')) [ItemChild staleItem])]] \<and>
        title (itemData it') = ''a'' \<and> title (itemData staleItem) = ''stale''"
    by (simp add: boardDefs reparseDefs demoEnv_def nodeDefs itemDefs)
  then obtain b' it' where b': "reparseBoard demoEnv mixedBoard = (Inr b', None)"
    and rest: "boardChildren b' =
          [Lane ''l1'' (plainLaneData ''A'' 2 None)
             [ItemChild it',
              LaneChild (Lane ''l2'' (plainLaneData ''B'' 3 (Some ''l1'')) [ItemChild staleItem])]]"
        "title (itemData it') = ''a''" "title (itemData staleItem) = ''stale''"
    by (elim exE conjE)
  from reparseBoard_direct_items[OF b'] b' rest show ?thesis
    by (intro exI[of _ b'] exI[of _ it']) simp
qed

text \<open>
  C3 as stated fails for an item below a nested lane: \<open>reparseBoard\<close> returns the board as it
  was, with the item whose title is out of date, while \<open>updateItemContent\<close> on that item
  gives the title of its raw text.
\<close>

theorem reparseBoard_direct_items_counterexample:
  "reparseBoard demoEnv nestedBoard = (Inr nestedBoard, None) \<and>
   concat (map (\<lambda>l. childLanes (laneChildren l)) (boardChildren nestedBoard)) =
     [Lane ''l2'' (plainLaneData ''B'' 3 (Some ''l1'')) [ItemChild staleItem]] \<and>
   title (itemData staleItem) = ''stale'' \<and>
   map_sum id (title \<circ> itemData)
     (updateItemContent demoEnv staleItem (titleRaw (itemData staleItem))) = Inr ''a''"
  by (simp add: boardDefs reparseDefs demoEnv_def nodeDefs itemDefs)

end
